theory Spec2Isabelle
  imports Complex_Main
begin

chapter \<open>Rift Architect: orchestration core\<close>

text \<open>
  A shallow embedding of the parts of the Rift Architect main process that carry its
  ordering, rate-limiting and failure behaviour: the rate buckets and the serial request
  queue of the Riot API client, the game-phase state machine and the orchestrator's agent
  handover, the tactical trigger detector with the Macro Strategist's dispatch, and the
  event poller of the Live Client API.

  Conventions. \<open>Date.now()\<close> is an explicit argument \<open>now\<close> (milliseconds, an
  integer). A JavaScript number that can be \<open>NaN\<close> is a \<open>jsnum\<close>. Private fields
  keep their names without the \<open>#\<close>. Everything a method mutates is returned as the updated
  record. Things the program sends outward (overlay messages, emitted signals, HTTP requests,
  log lines that a statement below refers to) are appended to a list in the state.
\<close>

section \<open>JavaScript values used by the program\<close>

text \<open>
  Numbers: the program computes with integers (counts, milliseconds, header fields) except
  where a conversion fails, which JavaScript reports as \<open>NaN\<close>. Arithmetic with
  \<open>NaN\<close> gives \<open>NaN\<close>, every comparison with \<open>NaN\<close> is false, and \<open>NaN\<close>
  is falsy, as is \<open>0\<close>. \<open>undefined\<close> in arithmetic converts to \<open>NaN\<close>.
\<close>

datatype jsnum = Num int | NaN

fun js_add :: "jsnum \<Rightarrow> jsnum \<Rightarrow> jsnum" where
  "js_add (Num a) (Num b) = Num (a + b)"
| "js_add _ _ = NaN"

fun js_sub :: "jsnum \<Rightarrow> jsnum \<Rightarrow> jsnum" where
  "js_sub (Num a) (Num b) = Num (a - b)"
| "js_sub _ _ = NaN"

fun js_mul :: "jsnum \<Rightarrow> jsnum \<Rightarrow> jsnum" where
  "js_mul (Num a) (Num b) = Num (a * b)"
| "js_mul _ _ = NaN"

fun js_lt :: "jsnum \<Rightarrow> jsnum \<Rightarrow> bool" where
  "js_lt (Num a) (Num b) = (a < b)"
| "js_lt _ _ = False"

fun js_truthy :: "jsnum \<Rightarrow> bool" where
  "js_truthy (Num a) = (a \<noteq> 0)"
| "js_truthy NaN = False"

text \<open>\<open>Math.max(a, b)\<close>: \<open>NaN\<close> if either argument is.\<close>

fun js_max :: "jsnum \<Rightarrow> jsnum \<Rightarrow> jsnum" where
  "js_max (Num a) (Num b) = Num (max a b)"
| "js_max _ _ = NaN"

text \<open>\<open>Math.max(0, ...xs)\<close>.\<close>

definition Math_max0 :: "jsnum list \<Rightarrow> jsnum" where
  "Math_max0 xs = foldl js_max (Num 0) xs"

definition is_digit :: "char \<Rightarrow> bool" where
  "is_digit c = (c \<in> set ''0123456789'')"

definition digit_val :: "char \<Rightarrow> int" where
  "digit_val c = int (of_char c) - 48"

definition dec_value :: "string \<Rightarrow> int" where
  "dec_value s = foldl (\<lambda>a c. 10 * a + digit_val c) 0 s"

text \<open>
  \<open>Number(s)\<close> on the literals of the rate-limit header grammar \<open>N:S\<close>: a string of
  decimal digits is its value, the empty string is \<open>0\<close>, text that is no numeric literal
  is \<open>NaN\<close>. Signed, fractional, exponent and radix-prefixed literals and literals padded
  with white space do not occur in that grammar; they are not modelled and read as
  \<open>NaN\<close> here.
\<close>

definition Number_js :: "string \<Rightarrow> jsnum" where
  "Number_js s = (if s = [] then Num 0
                  else if list_all is_digit s then Num (dec_value s) else NaN)"

text \<open>
  \<open>parseInt(s, 10)\<close>: leading white space is skipped, one sign is read, then the longest
  prefix of decimal digits; \<open>NaN\<close> when that prefix is empty. The strings are header
  values, whose characters are 8-bit; the value is the exact integer, which is what the
  program computes as long as it stays below \<open>2^53\<close>.
\<close>

definition is_space :: "char \<Rightarrow> bool" where
  "is_space c =
     (c \<in> set [CHR '' '', CHR 0x09, CHR 0x0A, CHR 0x0B, CHR 0x0C, CHR 0x0D, CHR 0xA0])"

definition parseInt10 :: "string \<Rightarrow> jsnum" where
  "parseInt10 s =
     (let t = dropWhile is_space s;
          neg = (t \<noteq> [] \<and> hd t = CHR ''-'');
          u = (if t \<noteq> [] \<and> (hd t = CHR ''-'' \<or> hd t = CHR ''+'') then tl t else t);
          ds = takeWhile is_digit u
      in if ds = [] then NaN
         else Num (if neg then - dec_value ds else dec_value ds))"

text \<open>
  \<open>s.split(sep)\<close> for a one-character separator: the pieces between the separators, in
  order; a string without the separator (the empty string too) is a single piece.
\<close>

fun split_on :: "char \<Rightarrow> string \<Rightarrow> string list" where
  "split_on sep [] = [[]]"
| "split_on sep (c # cs) =
     (if c = sep then [] # split_on sep cs
      else (case split_on sep cs of
              [] \<Rightarrow> [[c]]
            | w # ws \<Rightarrow> (c # w) # ws))"

text \<open>\<open>xs[i]\<close> of an array of numbers, used as a number: \<open>undefined\<close> acts as \<open>NaN\<close>.\<close>

definition num_at :: "jsnum list \<Rightarrow> nat \<Rightarrow> jsnum" where
  "num_at xs i = (if i < length xs then xs ! i else NaN)"

section \<open>Token buckets and the rate limiter\<close>

text \<open>
  Class \<open>Bucket\<close>: at most \<open>max\<close> requests per window. The field \<open>max\<close> is
  \<open>max_b\<close> here. \<open>timestamps\<close> holds the times of the recorded requests in the order
  they were recorded.
\<close>

record bucket =
  max_b :: jsnum
  windowMs :: jsnum
  timestamps :: "int list"

definition Bucket :: "jsnum \<Rightarrow> jsnum \<Rightarrow> bucket" where
  "Bucket mx windowSeconds =
     \<lparr>max_b = mx, windowMs = js_mul windowSeconds (Num 1000), timestamps = []\<rparr>"

text \<open>\<open>#prune\<close>: keep the timestamps \<open>t > Date.now() - windowMs\<close>.\<close>

definition prune :: "bucket \<Rightarrow> int \<Rightarrow> bucket" where
  "prune b now =
     b\<lparr>timestamps := filter (\<lambda>t. js_lt (js_sub (Num now) (windowMs b)) (Num t)) (timestamps b)\<rparr>"

definition canRequest :: "bucket \<Rightarrow> int \<Rightarrow> bool \<times> bucket" where
  "canRequest b now =
     (let b' = prune b now
      in (js_lt (Num (int (length (timestamps b')))) (max_b b'), b'))"

definition consume :: "bucket \<Rightarrow> int \<Rightarrow> bucket" where
  "consume b now = b\<lparr>timestamps := timestamps b @ [now]\<rparr>"

text \<open>
  \<open>waitTime\<close>: \<open>0\<close> if a request fits; otherwise \<open>timestamps[0] + windowMs - now\<close>,
  where \<open>timestamps[0]\<close> of an empty array is \<open>undefined\<close>.
\<close>

definition waitTime :: "bucket \<Rightarrow> int \<Rightarrow> jsnum \<times> bucket" where
  "waitTime b now =
     (let b' = prune b now
      in if js_lt (Num (int (length (timestamps b')))) (max_b b') then (Num 0, b')
         else (js_sub (js_add (case timestamps b' of [] \<Rightarrow> NaN | t # _ \<Rightarrow> Num t)
                               (windowMs b'))
                      (Num now), b'))"

text \<open>
  Class \<open>RateLimiter\<close>: the buckets parsed from a header such as \<open>20:1,100:120\<close>.
  \<open>parseBuckets\<close> returns the default pair for a falsy header; each piece between commas
  is split at the colons and its first two fields are converted with \<open>Number\<close>.
\<close>

definition parseBuckets :: "string \<Rightarrow> bucket list" where
  "parseBuckets headerValue =
     (if headerValue = [] then [Bucket (Num 20) (Num 1), Bucket (Num 100) (Num 120)]
      else map (\<lambda>pair. let nums = map Number_js (split_on CHR '':'' pair)
                        in Bucket (num_at nums 0) (num_at nums 1))
               (split_on CHR '','' headerValue))"

record rateLimiter =
  buckets :: "bucket list"

definition RateLimiter :: "string \<Rightarrow> rateLimiter" where
  "RateLimiter headerValue = \<lparr>buckets = parseBuckets headerValue\<rparr>"

text \<open>
  \<open>buckets.every(b => b.canRequest())\<close> stops at the first bucket that refuses, so the
  buckets behind it are not pruned by this call.
\<close>

fun every_canRequest :: "bucket list \<Rightarrow> int \<Rightarrow> bool \<times> bucket list" where
  "every_canRequest [] now = (True, [])"
| "every_canRequest (b # bs) now =
     (case canRequest b now of
        (True, b') \<Rightarrow> (case every_canRequest bs now of (r, bs') \<Rightarrow> (r, b' # bs'))
      | (False, b') \<Rightarrow> (False, b' # bs))"

definition rl_canRequest :: "rateLimiter \<Rightarrow> int \<Rightarrow> bool \<times> rateLimiter" where
  "rl_canRequest rl now =
     (case every_canRequest (buckets rl) now of (r, bs) \<Rightarrow> (r, rl\<lparr>buckets := bs\<rparr>))"

definition rl_consume :: "rateLimiter \<Rightarrow> int \<Rightarrow> rateLimiter" where
  "rl_consume rl now = rl\<lparr>buckets := map (\<lambda>b. consume b now) (buckets rl)\<rparr>"

definition rl_waitTime :: "rateLimiter \<Rightarrow> int \<Rightarrow> jsnum \<times> rateLimiter" where
  "rl_waitTime rl now =
     (let rs = map (\<lambda>b. waitTime b now) (buckets rl)
      in (Math_max0 (map fst rs), rl\<lparr>buckets := map snd rs\<rparr>))"

definition update :: "rateLimiter \<Rightarrow> string \<Rightarrow> rateLimiter" where
  "update rl headerValue = rl\<lparr>buckets := parseBuckets headerValue\<rparr>"

text \<open>A bucket whose capacity is a positive number, and one that holds no timestamp.\<close>

definition positive_capacity :: "bucket \<Rightarrow> bool" where
  "positive_capacity b = js_lt (Num 0) (max_b b)"

definition no_timestamps :: "bucket \<Rightarrow> bool" where
  "no_timestamps b = (timestamps b = [])"

text \<open>Example data: a limiter of one request per second that has recorded two requests.\<close>

definition used_limiter :: rateLimiter where
  "used_limiter = rl_consume (rl_consume (RateLimiter ''1:1'') 1000) 1001"

section \<open>The game-phase state machine\<close>

datatype GamePhase = IDLE | LOBBY | CHAMP_SELECT | LOADING | IN_GAME | POST_GAME

text \<open>
  \<open>LCU_PHASE_MAP\<close> is a frozen object literal, and \<open>LCU_PHASE_MAP[lcuPhase]\<close> is a
  property read: it finds the ten own properties below and, for a name that is no own
  property, whatever \<open>Object.prototype\<close> has under that name (a function, or the
  prototype object itself for \<open>__proto__\<close>), which is truthy and is no phase. A value the
  state machine can hold is therefore a phase or such an inherited member, named by its
  property name.
\<close>

datatype phase_value = Phase GamePhase | Inherited string

definition LCU_PHASE_MAP :: "(string \<times> GamePhase) list" where
  "LCU_PHASE_MAP =
     [(''None'', IDLE),
      (''Lobby'', LOBBY),
      (''Matchmaking'', LOBBY),
      (''ReadyCheck'', LOBBY),
      (''ChampSelect'', CHAMP_SELECT),
      (''GameStart'', LOADING),
      (''InProgress'', IN_GAME),
      (''WaitingForStats'', POST_GAME),
      (''PreEndOfGame'', POST_GAME),
      (''EndOfGame'', POST_GAME)]"

definition Object_prototype_names :: "string list" where
  "Object_prototype_names =
     [''constructor'', ''__defineGetter__'', ''__defineSetter__'', ''hasOwnProperty'',
      ''__lookupGetter__'', ''__lookupSetter__'', ''isPrototypeOf'',
      ''propertyIsEnumerable'', ''toString'', ''valueOf'', ''__proto__'',
      ''toLocaleString'']"

text \<open>The property read; \<open>None\<close> is \<open>undefined\<close>.\<close>

definition lcu_phase_lookup :: "string \<Rightarrow> phase_value option" where
  "lcu_phase_lookup lcuPhase =
     (case map_of LCU_PHASE_MAP lcuPhase of
        Some p \<Rightarrow> Some (Phase p)
      | None \<Rightarrow> if lcuPhase \<in> set Object_prototype_names then Some (Inherited lcuPhase)
                else None)"

fun VALID_TRANSITIONS :: "GamePhase \<Rightarrow> GamePhase list" where
  "VALID_TRANSITIONS IDLE = [LOBBY]"
| "VALID_TRANSITIONS LOBBY = [CHAMP_SELECT, IDLE]"
| "VALID_TRANSITIONS CHAMP_SELECT = [LOADING, LOBBY]"
| "VALID_TRANSITIONS LOADING = [IN_GAME]"
| "VALID_TRANSITIONS IN_GAME = [POST_GAME]"
| "VALID_TRANSITIONS POST_GAME = [IDLE, LOBBY]"

text \<open>
  Class \<open>GamePhaseStateMachine\<close>. The callback \<open>onTransition(from, to)\<close> is the list
  \<open>transitions\<close> of the calls made so far; \<open>invalid_logged\<close> is the list of the
  warnings "Invalid phase transition (forcing anyway ...)".
\<close>

record stateMachine =
  currentPhase :: phase_value
  transitions :: "(phase_value \<times> phase_value) list"
  invalid_logged :: "(phase_value \<times> phase_value) list"

definition new_stateMachine :: stateMachine where
  "new_stateMachine = \<lparr>currentPhase = Phase IDLE, transitions = [], invalid_logged = []\<rparr>"

datatype js_error = TypeError

text \<open>
  \<open>transition(newPhase)\<close> returns whether a transition occurred. When the current value
  is no phase, \<open>VALID_TRANSITIONS[currentPhase]\<close> is \<open>undefined\<close> and
  \<open>valid.includes\<close> throws.
\<close>

definition transition :: "stateMachine \<Rightarrow> phase_value \<Rightarrow> js_error + (bool \<times> stateMachine)" where
  "transition sm newPhase =
     (if newPhase = currentPhase sm then Inr (False, sm)
      else case currentPhase sm of
             Inherited _ \<Rightarrow> Inl TypeError
           | Phase cur \<Rightarrow>
               let sm1 = (if newPhase \<in> set (map Phase (VALID_TRANSITIONS cur)) then sm
                          else sm\<lparr>invalid_logged := invalid_logged sm @ [(Phase cur, newPhase)]\<rparr>)
               in Inr (True, sm1\<lparr>currentPhase := newPhase,
                                 transitions := transitions sm1 @ [(Phase cur, newPhase)]\<rparr>))"

definition transitionFromLCU :: "stateMachine \<Rightarrow> string \<Rightarrow> js_error + (bool \<times> stateMachine)" where
  "transitionFromLCU sm lcuPhase =
     (case lcu_phase_lookup lcuPhase of
        None \<Rightarrow> transition sm (Phase IDLE)
      | Some mapped \<Rightarrow> transition sm mapped)"

text \<open>\<open>reset()\<close>: force \<open>IDLE\<close>, reporting a transition if the phase was another one.\<close>

definition reset_sm :: "stateMachine \<Rightarrow> stateMachine" where
  "reset_sm sm =
     (let from = currentPhase sm
      in if from \<noteq> Phase IDLE
         then sm\<lparr>currentPhase := Phase IDLE, transitions := transitions sm @ [(from, Phase IDLE)]\<rparr>
         else sm\<lparr>currentPhase := Phase IDLE\<rparr>)"

section \<open>The Live Client event poller\<close>

text \<open>
  A game event of \<open>/eventdata\<close>. Fields a kind of event does not carry are \<open>None\<close>.
\<close>

record gameEvent =
  EventID :: int
  EventName :: string
  EventTime :: real
  KillerName :: "string option"
  VictimName :: "string option"
  TurretKilled :: "string option"
  InhibKilled :: "string option"
  InhibRespawned :: "string option"

text \<open>
  Class \<open>LiveClientAPI\<close>, the event timer of \<open>startPolling\<close>. \<open>eventTimer\<close>
  tells whether the field \<open>#eventTimer\<close> refers to an interval, \<open>intervals\<close> counts
  the event intervals that were set and not cleared, and \<open>polls_in_flight\<close> counts the calls
  of the timer callback that wait for \<open>getEventData()\<close>. \<open>new_events_emitted\<close> is
  the list of the payloads of the \<open>new-events\<close> emissions since polling was started
  last. The snapshot timer is left out.
\<close>

record liveClient =
  eventTimer :: bool
  intervals :: nat
  polls_in_flight :: nat
  lastEventId :: int
  new_events_emitted :: "gameEvent list list"

definition new_liveClient :: liveClient where
  "new_liveClient =
     \<lparr>eventTimer = False, intervals = 0, polls_in_flight = 0, lastEventId = - 1,
      new_events_emitted = []\<rparr>"

text \<open>
  \<open>startPolling\<close> sets a new interval without clearing one that is running;
  \<open>stopPolling\<close> clears the interval the field refers to and resets
  \<open>#lastEventId\<close>. Neither touches a request that is in flight.
\<close>

definition startPolling :: "liveClient \<Rightarrow> liveClient" where
  "startPolling lc =
     lc\<lparr>lastEventId := - 1, eventTimer := True, intervals := Suc (intervals lc),
        new_events_emitted := []\<rparr>"

definition stopPolling :: "liveClient \<Rightarrow> liveClient" where
  "stopPolling lc =
     (if eventTimer lc then lc\<lparr>intervals := intervals lc - 1, eventTimer := False\<rparr> else lc)
       \<lparr>lastEventId := - 1\<rparr>"

text \<open>\<open>Math.max(...xs)\<close> of a nonempty array of integers.\<close>

definition Math_max_ints :: "int list \<Rightarrow> int" where
  "Math_max_ints xs = foldl max (hd xs) (tl xs)"

text \<open>
  The timer callback. When an interval fires the callback calls \<open>getEventData()\<close> and
  waits. \<open>eventTick\<close> is what it does when the request has ended. The argument is the
  result of \<open>getEventData()\<close>: \<open>None\<close> when the request failed (the exception is
  swallowed), otherwise the array \<open>eventData.Events || []\<close>.
\<close>

definition eventTimerFired :: "liveClient \<Rightarrow> liveClient" where
  "eventTimerFired lc = (if intervals lc > 0 then lc\<lparr>polls_in_flight := Suc (polls_in_flight lc)\<rparr> else lc)"

definition eventTick :: "liveClient \<Rightarrow> gameEvent list option \<Rightarrow> liveClient" where
  "eventTick lc fetched =
     (case fetched of
        None \<Rightarrow> lc
      | Some allEvents \<Rightarrow>
          let newEvents = filter (\<lambda>e. EventID e > lastEventId lc) allEvents
          in if length newEvents > 0
             then lc\<lparr>lastEventId := Math_max_ints (map EventID newEvents),
                     new_events_emitted := new_events_emitted lc @ [newEvents]\<rparr>
             else lc)"

definition eventDataFetched :: "liveClient \<Rightarrow> gameEvent list option \<Rightarrow> liveClient" where
  "eventDataFetched lc fetched =
     (if polls_in_flight lc = 0 then lc
      else eventTick (lc\<lparr>polls_in_flight := polls_in_flight lc - 1\<rparr>) fetched)"

text \<open>
  What can happen to the poller, in the order it happens: the two methods are called, an
  interval fires, a request that is in flight ends.
\<close>

datatype poller_event =
    StartPolling
  | StopPolling
  | EventTimerFired
  | EventDataFetched "gameEvent list option"

fun poller_step :: "liveClient \<Rightarrow> poller_event \<Rightarrow> liveClient" where
  "poller_step lc StartPolling = startPolling lc"
| "poller_step lc StopPolling = stopPolling lc"
| "poller_step lc EventTimerFired = eventTimerFired lc"
| "poller_step lc (EventDataFetched fetched) = eventDataFetched lc fetched"

definition poll_events :: "liveClient \<Rightarrow> poller_event list \<Rightarrow> liveClient" where
  "poll_events lc evs = foldl poller_step lc evs"

fun is_StopPolling :: "poller_event \<Rightarrow> bool" where
  "is_StopPolling StopPolling = True"
| "is_StopPolling _ = False"

text \<open>
  Two predicates for the proof about the poller: no emitted \<open>EventID\<close> exceeds
  \<open>lastEventId\<close>, and the emissions are increasing (every ID of a later emission exceeds
  every ID of an earlier one).
\<close>

definition ids_below :: "liveClient \<Rightarrow> bool" where
  "ids_below lc = (\<forall>es \<in> set (new_events_emitted lc). \<forall>e \<in> set es. EventID e \<le> lastEventId lc)"

definition increasing_emissions :: "gameEvent list list \<Rightarrow> bool" where
  "increasing_emissions ems =
     (\<forall>i j. i < j \<and> j < length ems \<longrightarrow>
        (\<forall>a \<in> set (ems ! i). \<forall>b \<in> set (ems ! j). EventID a < EventID b))"

text \<open>
  Example data: three events; a run of polls around a failed one; and a run in which
  \<open>stopPolling\<close> is called while a request is in flight.
\<close>

definition example_event :: "int \<Rightarrow> gameEvent" where
  "example_event n =
     \<lparr>EventID = n, EventName = ''ChampionKill'', EventTime = 0, KillerName = None,
      VictimName = None, TurretKilled = None, InhibKilled = None, InhibRespawned = None\<rparr>"

definition example_polls :: "poller_event list" where
  "example_polls =
     [StartPolling,
      EventTimerFired, EventDataFetched (Some [example_event 0, example_event 1]),
      EventTimerFired, EventDataFetched None,
      EventTimerFired,
      EventDataFetched (Some [example_event 0, example_event 1, example_event 2])]"

definition stopped_in_flight :: "poller_event list" where
  "stopped_in_flight =
     [StartPolling,
      EventTimerFired, EventDataFetched (Some [example_event 0, example_event 1]),
      EventTimerFired,
      StopPolling,
      EventDataFetched (Some [example_event 0, example_event 1, example_event 2])]"

section \<open>The tactical trigger detector\<close>

text \<open>
  The parts of a Live Client snapshot the detector reads. A string field that is absent is
  the empty string, which is falsy like \<open>undefined\<close>. The numeric fields are always
  present in the API's JSON, so \<open>x || 0\<close> on them is \<open>x\<close>.
\<close>

record player =
  riotId :: string
  summonerName :: string
  championName :: string
  team :: string
  position :: string
  isDead :: bool
  respawnTimer :: real
  creepScore :: int
  kills :: int
  assists :: int

record activePlayer =
  ap_riotId :: string
  ap_summonerName :: string
  ap_championName :: string
  ap_level :: int

record snapshot =
  allPlayers :: "player list"
  activePlayer_of :: "activePlayer option"
  gameTime :: real

datatype MacroTrigger =
    THROW_GUARD | BARON_WINDOW | CONTEST_SOUL | RUSH_BARON | CATCH_WAVE
  | WIN_CONDITION | BARON_BAIT
  | GOLD_SWING | OBJECTIVE_TAKEN | ACE | POWER_SPIKE | DEATH_TIMER_LONG
  | TOWER_DESTROYED | INHIB_KILLED

datatype urgency = info | suggestion | urgent

text \<open>
  A \<open>TriggerResult\<close>. The free-text field \<open>detail\<close> is only logged and passed on, and
  is left out. The long dash of the source's messages is written \<open>--\<close>.
\<close>

record triggerResult =
  trigger :: MacroTrigger
  urgency_of :: urgency
  localCall :: "string option"
  localCallType :: "string option"
  claudeWorthy :: bool

definition local_trigger :: "MacroTrigger \<Rightarrow> urgency \<Rightarrow> string \<Rightarrow> string \<Rightarrow> triggerResult" where
  "local_trigger t u msg ty =
     \<lparr>trigger = t, urgency_of = u, localCall = Some msg, localCallType = Some ty,
      claudeWorthy = False\<rparr>"

definition plain_trigger :: "MacroTrigger \<Rightarrow> urgency \<Rightarrow> bool \<Rightarrow> triggerResult" where
  "plain_trigger t u cw =
     \<lparr>trigger = t, urgency_of = u, localCall = None, localCallType = None, claudeWorthy = cw\<rparr>"

text \<open>
  Class \<open>TriggerDetector\<close>. \<open>localTeam\<close> and \<open>localPlayerName\<close> are \<open>None\<close> for
  \<open>null\<close>. The key \<open>team:lane\<close> of \<open>turretsDestroyed\<close> is the pair, and its
  values are counts, starting at 0 and only ever incremented; the key
  \<open>EventName:EventID\<close> of \<open>seenEventIds\<close> is the pair.
\<close>

record detector =
  localTeam :: "string option"
  localPlayerName :: "string option"
  playerTeamMap :: "string \<rightharpoonup> string"
  goldHistory :: "(real \<times> int \<times> int) list"
  lastReportedGoldLead :: int
  allyDrakeCount :: int
  enemyDrakeCount :: int
  lastDrakeKillTime :: real
  lastBaronKillTime :: real
  recentAllyDeathTimes :: "real list"
  turretsDestroyed :: "(string \<times> string) \<rightharpoonup> nat"
  allyInhibsDown :: "string set"
  enemyInhibsDown :: "string set"
  playerLevels :: "string \<rightharpoonup> int"
  seenEventIds :: "(string \<times> int) set"

definition reset_detector :: detector where
  "reset_detector =
     \<lparr>localTeam = None, localPlayerName = None, playerTeamMap = Map.empty,
      goldHistory = [], lastReportedGoldLead = 0, allyDrakeCount = 0, enemyDrakeCount = 0,
      lastDrakeKillTime = 0, lastBaronKillTime = 0, recentAllyDeathTimes = [],
      turretsDestroyed = Map.empty, allyInhibsDown = {}, enemyInhibsDown = {},
      playerLevels = Map.empty, seenEventIds = {}\<rparr>"

definition BARON_SPAWN_TIME :: real where "BARON_SPAWN_TIME = 1200"
definition BARON_RESPAWN_TIME :: real where "BARON_RESPAWN_TIME = 360"

definition isBaronUp :: "detector \<Rightarrow> real \<Rightarrow> bool" where
  "isBaronUp d gt =
     (if gt < BARON_SPAWN_TIME then False
      else if lastBaronKillTime d = 0 then True
      else gt \<ge> lastBaronKillTime d + BARON_RESPAWN_TIME)"

text \<open>\<open>a || b\<close> on strings.\<close>

definition or_str :: "string \<Rightarrow> string \<Rightarrow> string" where
  "or_str a b = (if a \<noteq> [] then a else b)"

definition team_truthy :: "string option \<Rightarrow> bool" where
  "team_truthy t = (case t of None \<Rightarrow> False | Some s \<Rightarrow> s \<noteq> [])"

definition estimateTeamGold :: "player list \<Rightarrow> int" where
  "estimateTeamGold players =
     foldl (\<lambda>sum p. sum + creepScore p * 20 + kills p * 300 + assists p * 150) 0 players"

text \<open>\<open>turretsDestroyed.get(key) || 0\<close>.\<close>

definition turrets_down :: "detector \<Rightarrow> string \<Rightarrow> string \<Rightarrow> nat" where
  "turrets_down d tm lane = (case turretsDestroyed d (tm, lane) of None \<Rightarrow> 0 | Some n \<Rightarrow> n)"

definition getPlayerTeam :: "detector \<Rightarrow> string option \<Rightarrow> string option" where
  "getPlayerTeam d name =
     (case name of
        None \<Rightarrow> None
      | Some n \<Rightarrow> (case playerTeamMap d n of
                     None \<Rightarrow> None
                   | Some t \<Rightarrow> if t \<noteq> [] then Some t else None))"

text \<open>\<open>s.includes(sub)\<close>.\<close>

fun includes_js :: "string \<Rightarrow> string \<Rightarrow> bool" where
  "includes_js [] sub = (sub = [])"
| "includes_js (c # cs) sub = (take (length sub) (c # cs) = sub \<or> includes_js cs sub)"

definition parseTurretTeam :: "string \<Rightarrow> string option" where
  "parseTurretTeam name =
     (if includes_js name ''T1'' then Some ''ORDER''
      else if includes_js name ''T2'' then Some ''CHAOS'' else None)"

definition parseTurretLane :: "string \<Rightarrow> string option" where
  "parseTurretLane name =
     (if includes_js name ''_R_'' \<or> includes_js name ''_R1'' \<or> includes_js name ''_R2'' then Some ''bot''
      else if includes_js name ''_L_'' \<or> includes_js name ''_L1'' \<or> includes_js name ''_L2'' then Some ''top''
      else if includes_js name ''_C_'' \<or> includes_js name ''_C1'' \<or> includes_js name ''_C2'' then Some ''mid''
      else None)"

definition parseInhibTeam :: "string \<Rightarrow> string option" where
  "parseInhibTeam name =
     (if includes_js name ''T1'' then Some ''ORDER''
      else if includes_js name ''T2'' then Some ''CHAOS'' else None)"

definition parseInhibLane :: "string \<Rightarrow> string option" where
  "parseInhibLane name =
     (if includes_js name ''_L'' then Some ''top''
      else if includes_js name ''_C'' then Some ''mid''
      else if includes_js name ''_R'' then Some ''bot''
      else None)"

text \<open>\<open>Math.min(...xs)\<close> of a nonempty array.\<close>

definition Math_min_reals :: "real list \<Rightarrow> real" where
  "Math_min_reals xs = foldl min (hd xs) (tl xs)"

subsection \<open>\<open>#checkSideLanePressure\<close>\<close>

definition side_lane_check :: "detector \<Rightarrow> player list \<Rightarrow> string \<Rightarrow> string \<Rightarrow> string
    \<Rightarrow> triggerResult option" where
  "side_lane_check d allies lane role msg =
     (if turrets_down d (case localTeam d of None \<Rightarrow> ''null'' | Some t \<Rightarrow> t) lane < 2 then None
      else (case find (\<lambda>p. position p = role) allies of
              None \<Rightarrow> None
            | Some laneAlly \<Rightarrow>
                if isDead laneAlly
                then Some (local_trigger CATCH_WAVE suggestion msg ''CATCH_WAVE'')
                else None))"

definition checkSideLanePressure :: "detector \<Rightarrow> player list \<Rightarrow> triggerResult option" where
  "checkSideLanePressure d allies =
     (case side_lane_check d allies ''top'' ''TOP'' ''CATCH TOP WAVE -- Turrets exposed'' of
        Some t \<Rightarrow> Some t
      | None \<Rightarrow> side_lane_check d allies ''bot'' ''BOTTOM'' ''CATCH BOT WAVE -- Turrets exposed'')"

subsection \<open>\<open>#checkWinCondition\<close>\<close>

text \<open>
  \<open>bestLaneTurretsDown\<close>: the loop over the three lanes keeps the largest count above 0.
\<close>

definition bestLaneTurretsDown :: "detector \<Rightarrow> string \<Rightarrow> nat" where
  "bestLaneTurretsDown d enemyTeam =
     foldl (\<lambda>best lane. let down = turrets_down d enemyTeam lane
                         in if down > best then down else best)
           0 [''top'', ''mid'', ''bot'']"

text \<open>
  \<open>Math.round(x * 0.7)\<close> for the values \<open>x\<close> that occur (10, 28, 46, 64, 82, 100):
  none of the products is within floating-point error of a half, so the result is the
  integer nearest to \<open>7x/10\<close>, which is \<open>(7x + 5) div 10\<close>.
\<close>

definition round_times_0_7 :: "int \<Rightarrow> int" where
  "round_times_0_7 x = (x * 7 + 5) div 10"

definition estimatedPushTime :: "detector \<Rightarrow> string \<Rightarrow> int" where
  "estimatedPushTime d enemyTeam =
     (let structuresRemaining = max 0 (5 - int (bestLaneTurretsDown d enemyTeam));
          t = structuresRemaining * 18 + 10
      in if enemyInhibsDown d \<noteq> {} then round_times_0_7 t else t)"

definition checkWinCondition :: "detector \<Rightarrow> player list \<Rightarrow> player option \<Rightarrow> triggerResult option" where
  "checkWinCondition d enemies enemyJungler =
     (let deadEnemies = filter isDead enemies
      in if length deadEnemies < 3 then None
         else if (case enemyJungler of None \<Rightarrow> True | Some j \<Rightarrow> \<not> isDead j) then None
         else let minRespawn = Math_min_reals (map respawnTimer deadEnemies)
              in if minRespawn < 15 then None
                 else if team (hd enemies) = [] then None
                 else if real_of_int (estimatedPushTime d (team (hd enemies))) < minRespawn
                      then Some (local_trigger WIN_CONDITION urgent
                                   ''WIN CONDITION ACTIVE -- PUSH TO END'' ''WIN_CONDITION'')
                      else None)"

subsection \<open>\<open>evaluateSnapshot\<close>\<close>

text \<open>Identification of the local team on the first snapshot that allows it.\<close>

definition player_key :: "player \<Rightarrow> string" where
  "player_key p = or_str (riotId p) (summonerName p)"

definition identify_local_team :: "detector \<Rightarrow> snapshot \<Rightarrow> activePlayer \<Rightarrow> detector" where
  "identify_local_team d snap ap =
     (if team_truthy (localTeam d) then d
      else let nm = or_str (ap_riotId ap) (ap_summonerName ap);
               d1 = d\<lparr>localPlayerName := Some nm\<rparr>
           in (case find (\<lambda>p. player_key p = nm) (allPlayers snap) of
                 None \<Rightarrow> d1
               | Some local \<Rightarrow> d1\<lparr>localTeam := Some (team local)\<rparr>))"

definition player_map_name :: "player \<Rightarrow> string" where
  "player_map_name p = or_str (riotId p) (or_str (summonerName p) (championName p))"

definition push_gold_history :: "(real \<times> int \<times> int) list \<Rightarrow> real \<times> int \<times> int
    \<Rightarrow> (real \<times> int \<times> int) list" where
  "push_gold_history h e =
     (let h1 = h @ [e] in if length h1 > 20 then drop (length h1 - 15) h1 else h1)"

text \<open>
  The numbered sections of the method, each giving the triggers it pushes.
  \<open>pushed r\<close> is what \<open>if (r) triggers.push(r)\<close> adds.
\<close>

definition pushed :: "'a option \<Rightarrow> 'a list" where
  "pushed r = (case r of None \<Rightarrow> [] | Some t \<Rightarrow> [t])"

definition throw_guard_triggers :: "detector \<Rightarrow> int \<Rightarrow> triggerResult list" where
  "throw_guard_triggers d goldLead =
     (if goldLead > 3000 \<and> length (recentAllyDeathTimes d) \<ge> 2
      then [local_trigger THROW_GUARD urgent ''RESET NOW -- DON'T THROW BOUNTY'' ''RESET_NOW'']
      else [])"

definition baron_soul_triggers :: "detector \<Rightarrow> bool \<Rightarrow> real \<Rightarrow> player option \<Rightarrow> triggerResult list" where
  "baron_soul_triggers d baronUp gt enemyJungler =
     (if baronUp \<and> gt \<ge> BARON_SPAWN_TIME
      then (case enemyJungler of
              None \<Rightarrow> []
            | Some j \<Rightarrow> if isDead j \<and> respawnTimer j > 15
                        then [plain_trigger BARON_WINDOW urgent True] else [])
         @ (if enemyDrakeCount d \<ge> 3
            then [local_trigger CONTEST_SOUL urgent ''CONTEST SOUL -- Enemy on Soul Point''
                    ''CONTEST_OBJECTIVE'']
            else [])
         @ (if allyDrakeCount d \<ge> 3
            then [local_trigger RUSH_BARON urgent ''RUSH BARON -- Force lose-lose trade''
                    ''BARON_CALL'']
            else [])
      else [])"

definition side_lane_triggers :: "detector \<Rightarrow> real \<Rightarrow> player list \<Rightarrow> triggerResult list" where
  "side_lane_triggers d gt allies =
     (if gt > 840 then pushed (checkSideLanePressure d allies) else [])"

definition win_condition_triggers :: "detector \<Rightarrow> real \<Rightarrow> player list \<Rightarrow> player option
    \<Rightarrow> triggerResult list" where
  "win_condition_triggers d gt enemies enemyJungler =
     (if gt > 1500 then pushed (checkWinCondition d enemies enemyJungler) else [])"

definition inhib_pressure_triggers :: "detector \<Rightarrow> bool \<Rightarrow> real \<Rightarrow> triggerResult list" where
  "inhib_pressure_triggers d baronUp gt =
     (if enemyInhibsDown d \<noteq> {} \<and> baronUp \<and> gt \<ge> BARON_SPAWN_TIME
      then (if allyDrakeCount d < 3
            then [local_trigger BARON_BAIT suggestion
                    ''BARON BAIT -- Inhib down, punish face-checks'' ''BARON_BAIT'']
            else [])
      else [])"

definition ace_triggers :: "player list \<Rightarrow> triggerResult list" where
  "ace_triggers enemies =
     (if length enemies > 0 \<and> list_all isDead enemies then [plain_trigger ACE urgent True]
      else [])"

definition gold_swing_triggers :: "detector \<Rightarrow> int \<Rightarrow> triggerResult list \<times> detector" where
  "gold_swing_triggers d goldLead =
     (if \<bar>goldLead - lastReportedGoldLead d\<bar> \<ge> 1000
      then ([plain_trigger GOLD_SWING suggestion True], d\<lparr>lastReportedGoldLead := goldLead\<rparr>)
      else ([], d))"

definition death_timer_triggers :: "player list \<Rightarrow> triggerResult list" where
  "death_timer_triggers enemies =
     (let longDead = filter (\<lambda>p. isDead p \<and> respawnTimer p > 30) enemies
      in if length longDead \<ge> 2 then [plain_trigger DEATH_TIMER_LONG suggestion True] else [])"

definition power_spike_triggers :: "detector \<Rightarrow> activePlayer \<Rightarrow> triggerResult list \<times> detector" where
  "power_spike_triggers d ap =
     (let level = ap_level ap;
          name = (case localPlayerName d of
                    None \<Rightarrow> ''local''
                  | Some n \<Rightarrow> if n \<noteq> [] then n else ''local'');
          prevLevel = (case playerLevels d name of None \<Rightarrow> 0 | Some l \<Rightarrow> l)
      in if level \<noteq> prevLevel
         then (if level \<in> {6, 11, 16} \<and> prevLevel < level
               then [plain_trigger POWER_SPIKE info False] else [],
               d\<lparr>playerLevels := (playerLevels d)(name \<mapsto> level)\<rparr>)
         else ([], d))"

definition evaluateSnapshot :: "detector \<Rightarrow> snapshot \<Rightarrow> triggerResult list \<times> detector" where
  "evaluateSnapshot d snap =
     (case activePlayer_of snap of
        None \<Rightarrow> ([], d)
      | Some ap \<Rightarrow>
          if allPlayers snap = [] then ([], d)
          else
            let gt = gameTime snap;
                d1 = identify_local_team d snap ap
            in if \<not> team_truthy (localTeam d1) then ([], d1)
               else
                 let lt = the (localTeam d1);
                     d2 = d1\<lparr>playerTeamMap :=
                              foldl (\<lambda>m p. m(player_map_name p \<mapsto> team p))
                                    (playerTeamMap d1) (allPlayers snap)\<rparr>;
                     allies = filter (\<lambda>p. team p = lt) (allPlayers snap);
                     enemies = filter (\<lambda>p. team p \<noteq> lt) (allPlayers snap);
                     enemyJungler = find (\<lambda>p. position p = ''JUNGLE'') enemies;
                     allyGold = estimateTeamGold allies;
                     enemyGold = estimateTeamGold enemies;
                     goldLead = allyGold - enemyGold;
                     d3 = d2\<lparr>goldHistory :=
                              push_gold_history (goldHistory d2) (gt, allyGold, enemyGold)\<rparr>;
                     baronUp = isBaronUp d3 gt;
                     d4 = d3\<lparr>recentAllyDeathTimes :=
                              filter (\<lambda>t. gt - t < 30) (recentAllyDeathTimes d3)\<rparr>;
                     t1 = throw_guard_triggers d4 goldLead;
                     t2 = baron_soul_triggers d4 baronUp gt enemyJungler;
                     t3 = side_lane_triggers d4 gt allies;
                     t4 = win_condition_triggers d4 gt enemies enemyJungler;
                     t5 = inhib_pressure_triggers d4 baronUp gt;
                     t6 = ace_triggers enemies;
                     t7 = fst (gold_swing_triggers d4 goldLead);
                     d5 = snd (gold_swing_triggers d4 goldLead);
                     t8 = death_timer_triggers enemies;
                     t9 = fst (power_spike_triggers d5 ap);
                     d6 = snd (power_spike_triggers d5 ap)
                 in (t1 @ t2 @ t3 @ t4 @ t5 @ t6 @ t7 @ t8 @ t9, d6))"

subsection \<open>\<open>evaluateEvents\<close>\<close>

definition opt_str :: "string option \<Rightarrow> string" where
  "opt_str s = (case s of None \<Rightarrow> [] | Some x \<Rightarrow> x)"

text \<open>The body of the \<open>switch\<close> for one event that was not seen before.\<close>

definition handle_event :: "detector \<Rightarrow> gameEvent \<Rightarrow> triggerResult list \<times> detector" where
  "handle_event d e =
     (if EventName e = ''ChampionKill'' then
        (if getPlayerTeam d (VictimName e) = localTeam d
         then ([], d\<lparr>recentAllyDeathTimes := recentAllyDeathTimes d @ [EventTime e]\<rparr>)
         else ([], d))
      else if EventName e = ''DragonKill'' then
        (let d1 = d\<lparr>lastDrakeKillTime := EventTime e\<rparr>;
             drakeKillerTeam = getPlayerTeam d1 (KillerName e);
             d2 = (if drakeKillerTeam = localTeam d1
                   then d1\<lparr>allyDrakeCount := allyDrakeCount d1 + 1\<rparr>
                   else if drakeKillerTeam \<noteq> None
                   then d1\<lparr>enemyDrakeCount := enemyDrakeCount d1 + 1\<rparr>
                   else d1)
         in ([plain_trigger OBJECTIVE_TAKEN suggestion True], d2))
      else if EventName e = ''BaronKill'' then
        ([plain_trigger OBJECTIVE_TAKEN urgent True], d\<lparr>lastBaronKillTime := EventTime e\<rparr>)
      else if EventName e = ''HeraldKill'' then
        ([plain_trigger OBJECTIVE_TAKEN info True], d)
      else if EventName e = ''TurretKilled'' then
        (let turretName = opt_str (TurretKilled e);
             d1 = (case (parseTurretTeam turretName, parseTurretLane turretName) of
                     (Some tm, Some lane) \<Rightarrow>
                       d\<lparr>turretsDestroyed :=
                            (turretsDestroyed d)((tm, lane) \<mapsto> turrets_down d tm lane + 1)\<rparr>
                   | _ \<Rightarrow> d)
         in ([plain_trigger TOWER_DESTROYED info False], d1))
      else if EventName e = ''InhibKilled'' then
        (let inhibName = opt_str (InhibKilled e);
             d1 = (case (parseInhibTeam inhibName, parseInhibLane inhibName) of
                     (Some tm, Some lane) \<Rightarrow>
                       if Some tm = localTeam d
                       then d\<lparr>allyInhibsDown := insert lane (allyInhibsDown d)\<rparr>
                       else d\<lparr>enemyInhibsDown := insert lane (enemyInhibsDown d)\<rparr>
                   | _ \<Rightarrow> d)
         in ([plain_trigger INHIB_KILLED suggestion True], d1))
      else if EventName e = ''InhibRespawned'' then
        (let rInhibName = or_str (opt_str (InhibRespawned e)) (opt_str (InhibKilled e));
             d1 = (case (parseInhibTeam rInhibName, parseInhibLane rInhibName) of
                     (Some tm, Some lane) \<Rightarrow>
                       if Some tm = localTeam d
                       then d\<lparr>allyInhibsDown := allyInhibsDown d - {lane}\<rparr>
                       else d\<lparr>enemyInhibsDown := enemyInhibsDown d - {lane}\<rparr>
                   | _ \<Rightarrow> d)
         in ([], d1))
      else ([], d))"

fun evaluateEvents_loop :: "detector \<Rightarrow> gameEvent list \<Rightarrow> triggerResult list
    \<Rightarrow> triggerResult list \<times> detector" where
  "evaluateEvents_loop d [] triggers = (triggers, d)"
| "evaluateEvents_loop d (e # es) triggers =
     (let eventKey = (EventName e, EventID e)
      in if eventKey \<in> seenEventIds d then evaluateEvents_loop d es triggers
         else (case handle_event (d\<lparr>seenEventIds := insert eventKey (seenEventIds d)\<rparr>) e of
                 (ts, d1) \<Rightarrow> evaluateEvents_loop d1 es (triggers @ ts)))"

definition evaluateEvents :: "detector \<Rightarrow> gameEvent list \<Rightarrow> triggerResult list \<times> detector" where
  "evaluateEvents d events = evaluateEvents_loop d events []"

subsection \<open>Auxiliary predicate and example data\<close>

text \<open>
  \<open>is_win\<close> selects the win-condition triggers. The example is a late game: the local
  player on \<open>ORDER\<close>; three of four enemies dead, the jungler among them, with respawn
  timers 40, 50 and 35 s; three enemy turrets down in the mid lane and the enemy mid
  inhibitor down.
\<close>

definition is_win :: "triggerResult \<Rightarrow> bool" where
  "is_win t = (trigger t = WIN_CONDITION)"

definition mk_player :: "string \<Rightarrow> string \<Rightarrow> string \<Rightarrow> bool \<Rightarrow> real \<Rightarrow> player" where
  "mk_player nm tm pos dead rt =
     \<lparr>riotId = nm, summonerName = [], championName = nm, team = tm, position = pos,
      isDead = dead, respawnTimer = rt, creepScore = 0, kills = 0, assists = 0\<rparr>"

definition late_snapshot :: snapshot where
  "late_snapshot =
     \<lparr>allPlayers =
        [mk_player ''me'' ''ORDER'' ''MIDDLE'' False 0,
         mk_player ''e1'' ''CHAOS'' ''TOP'' True 40,
         mk_player ''e2'' ''CHAOS'' ''JUNGLE'' True 50,
         mk_player ''e3'' ''CHAOS'' ''MIDDLE'' True 35,
         mk_player ''e4'' ''CHAOS'' ''BOTTOM'' False 0],
      activePlayer_of = Some \<lparr>ap_riotId = ''me'', ap_summonerName = [], ap_championName = ''me'',
                                ap_level = 15\<rparr>,
      gameTime = 1700\<rparr>"

definition late_detector :: detector where
  "late_detector =
     reset_detector\<lparr>turretsDestroyed := [(''CHAOS'', ''mid'') \<mapsto> 3],
                    enemyInhibsDown := {''mid''}\<rparr>"

section \<open>The Macro Strategist: dispatch and the advice cooldown\<close>

text \<open>
  A message on the \<open>macro:call\<close> channel of the overlay. The field \<open>reasoning\<close> is
  free text and is left out.
\<close>

record macroCall =
  mc_id :: "int \<times> nat"
  mc_timestamp :: int
  mc_game_time :: real
  mc_call_type :: "string option"
  mc_urgency :: string
  mc_message :: "string option"
  mc_window_seconds :: int

definition urgency_name :: "urgency \<Rightarrow> string" where
  "urgency_name u = (case u of urgent \<Rightarrow> ''urgent'' | suggestion \<Rightarrow> ''suggestion'' | info \<Rightarrow> ''info'')"

text \<open>
  What the strategist dispatches: a local call sent straight to the overlay, or an
  invocation of Claude with the Claude-worthy triggers.
\<close>

datatype dispatch = LocalDispatch triggerResult | ClaudeDispatch "triggerResult list"

text \<open>
  Class \<open>MacroStrategist\<close>. \<open>overlay_sent\<close> is the list of the messages sent with
  \<open>sendToOverlay(MACRO_CALL, ...)\<close>. \<open>dispatch_log\<close> records every dispatch with the
  clock value written to \<open>lastAdviceTime\<close> when it was made. The clock reads of one
  synchronous run of a handler are one value \<open>now\<close>.
\<close>

record strategist =
  triggerDetector :: detector
  latestSnapshot :: "snapshot option"
  recentEvents :: "gameEvent list"
  lastAdviceTime :: int
  invoking :: bool
  callCounter :: nat
  overlay_sent :: "macroCall list"
  dispatch_log :: "(int \<times> dispatch) list"

definition MIN_ADVICE_INTERVAL :: int where
  "MIN_ADVICE_INTERVAL = 60000"

text \<open>A new instance after \<open>onActivate\<close>.\<close>

definition activated_strategist :: strategist where
  "activated_strategist =
     \<lparr>triggerDetector = reset_detector, latestSnapshot = None, recentEvents = [],
      lastAdviceTime = 0, invoking = False, callCounter = 0, overlay_sent = [],
      dispatch_log = []\<rparr>"

definition snapshot_game_time :: "snapshot option \<Rightarrow> real" where
  "snapshot_game_time s = (case s of None \<Rightarrow> 0 | Some snap \<Rightarrow> gameTime snap)"

definition emitLocalCall :: "strategist \<Rightarrow> triggerResult \<Rightarrow> int \<Rightarrow> strategist" where
  "emitLocalCall s t now =
     (let c = Suc (callCounter s)
      in s\<lparr>lastAdviceTime := now,
           callCounter := c,
           overlay_sent := overlay_sent s @
             [\<lparr>mc_id = (now, c), mc_timestamp = now,
               mc_game_time = snapshot_game_time (latestSnapshot s),
               mc_call_type = localCallType t,
               mc_urgency = urgency_name (urgency_of t),
               mc_message = localCall t,
               mc_window_seconds = (if urgency_of t = urgent then 20 else 15)\<rparr>],
           dispatch_log := dispatch_log s @ [(now, LocalDispatch t)]\<rparr>)"

text \<open>
  \<open>#maybeInvokeClaude\<close> up to its \<open>await\<close>: the invocation is started unless one is
  in flight or no snapshot has arrived. \<open>invoke_settled\<close> is the \<open>finally\<close> block, run
  when the invocation has ended.
\<close>

definition maybeInvokeClaude :: "strategist \<Rightarrow> triggerResult list \<Rightarrow> int \<Rightarrow> strategist" where
  "maybeInvokeClaude s triggers now =
     (if invoking s then s
      else if latestSnapshot s = None then s
      else s\<lparr>invoking := True,
             lastAdviceTime := now,
             dispatch_log := dispatch_log s @ [(now, ClaudeDispatch triggers)]\<rparr>)"

definition invoke_settled :: "strategist \<Rightarrow> strategist" where
  "invoke_settled s = s\<lparr>invoking := False\<rparr>"

text \<open>\<open>priorityOrder[t.urgency] ?? 3\<close>; the sort is stable.\<close>

definition priorityOrder :: "triggerResult \<Rightarrow> nat" where
  "priorityOrder t = (case urgency_of t of urgent \<Rightarrow> 0 | suggestion \<Rightarrow> 1 | info \<Rightarrow> 2)"

definition str_truthy :: "string option \<Rightarrow> bool" where
  "str_truthy s = (case s of None \<Rightarrow> False | Some x \<Rightarrow> x \<noteq> [])"

definition dispatch_top :: "strategist \<Rightarrow> triggerResult list \<Rightarrow> int \<Rightarrow> strategist" where
  "dispatch_top s triggers now =
     (let sorted_triggers = sort_key priorityOrder triggers;
          top = hd sorted_triggers
      in if str_truthy (localCall top) then emitLocalCall s top now
         else if claudeWorthy top
         then maybeInvokeClaude s (filter claudeWorthy sorted_triggers) now
         else s)"

definition handleSnapshot :: "strategist \<Rightarrow> snapshot \<Rightarrow> int \<Rightarrow> strategist" where
  "handleSnapshot s snap now =
     (let s1 = s\<lparr>latestSnapshot := Some snap\<rparr>
      in if allPlayers snap = [] \<or> activePlayer_of snap = None then s1
         else
           let triggers = fst (evaluateSnapshot (triggerDetector s1) snap);
               s2 = s1\<lparr>triggerDetector := snd (evaluateSnapshot (triggerDetector s1) snap)\<rparr>
           in if length triggers = 0 then s2
              else if now - lastAdviceTime s2 < MIN_ADVICE_INTERVAL then s2
              else dispatch_top s2 triggers now)"

definition keep_last_30 :: "'a list \<Rightarrow> 'a list" where
  "keep_last_30 xs = (if length xs > 30 then drop (length xs - 30) xs else xs)"

definition handleNewEvents :: "strategist \<Rightarrow> gameEvent list \<Rightarrow> int \<Rightarrow> strategist" where
  "handleNewEvents s events now =
     (let s1 = s\<lparr>recentEvents := keep_last_30 (recentEvents s @ events)\<rparr>;
          triggers = fst (evaluateEvents (triggerDetector s1) events);
          s2 = s1\<lparr>triggerDetector := snd (evaluateEvents (triggerDetector s1) events)\<rparr>
      in if length triggers = 0 then s2
         else if now - lastAdviceTime s2 < MIN_ADVICE_INTERVAL then s2
         else let cw = filter claudeWorthy triggers
              in if length cw > 0 then maybeInvokeClaude s2 cw now else s2)"

text \<open>
  The tool \<open>emit_macro_call\<close>, which Claude may call while an invocation runs: the
  message goes to the overlay; \<open>lastAdviceTime\<close> is not touched. The label of the
  message is \<open>labels[callType] || callType\<close>; a call type named like a member of
  \<open>Object.prototype\<close>, for which this read finds the inherited member, is treated
  here like any other unknown type.
\<close>

definition call_labels :: "(string \<times> string) list" where
  "call_labels =
     [(''CONTEST_OBJECTIVE'', ''Contest Objective''), (''SPLIT_PUSH'', ''Split Push''),
      (''GROUP_MID'', ''Group Mid''), (''RESET_NOW'', ''Reset Now''),
      (''PLAY_SAFE'', ''Play Safe''), (''FORCE_FIGHT'', ''Force Fight''),
      (''SET_UP_VISION'', ''Set Up Vision''), (''TAKE_TOWER'', ''Take Tower''),
      (''INVADE_JUNGLE'', ''Invade Jungle''), (''BARON_CALL'', ''Baron Call''),
      (''CATCH_WAVE'', ''Catch Wave''), (''WIN_CONDITION'', ''Win Condition''),
      (''BARON_BAIT'', ''Baron Bait'')]"

definition formatCallMessage :: "string \<Rightarrow> string \<Rightarrow> string" where
  "formatCallMessage callType message =
     (let label = (case map_of call_labels callType of None \<Rightarrow> callType | Some l \<Rightarrow> l);
          short = (if length message > 60 then take 57 message @ ''...'' else message)
      in label @ '' -- '' @ short)"

definition handleEmitMacroCall :: "strategist \<Rightarrow> string \<Rightarrow> string \<Rightarrow> string \<Rightarrow> int \<Rightarrow> int
    \<Rightarrow> strategist" where
  "handleEmitMacroCall s ty urg message window_seconds now =
     (let c = Suc (callCounter s)
      in s\<lparr>callCounter := c,
           overlay_sent := overlay_sent s @
             [\<lparr>mc_id = (now, c), mc_timestamp = now,
               mc_game_time = snapshot_game_time (latestSnapshot s),
               mc_call_type = Some ty, mc_urgency = urg,
               mc_message = Some (formatCallMessage ty message),
               mc_window_seconds = window_seconds\<rparr>]\<rparr>)"

text \<open>
  What can happen to an active strategist, in the order it happens: a snapshot or a batch
  of new events arrives at clock value \<open>now\<close>, the running invocation ends, or Claude
  calls the tool.
\<close>

datatype strategist_input =
    Snapshot snapshot int
  | NewEvents "gameEvent list" int
  | InvokeSettled
  | EmitMacroCall string string string int int

fun strategist_step :: "strategist \<Rightarrow> strategist_input \<Rightarrow> strategist" where
  "strategist_step s (Snapshot snap now) = handleSnapshot s snap now"
| "strategist_step s (NewEvents events now) = handleNewEvents s events now"
| "strategist_step s InvokeSettled = invoke_settled s"
| "strategist_step s (EmitMacroCall ty urg message w now) = handleEmitMacroCall s ty urg message w now"

definition strategist_run :: "strategist_input list \<Rightarrow> strategist" where
  "strategist_run inputs = foldl strategist_step activated_strategist inputs"

text \<open>
  For the proof of the cooldown: the dispatch times are pairwise at least the interval
  apart, none is later than \<open>lastAdviceTime\<close>, and \<open>lastAdviceTime\<close> is the time of the
  last dispatch once there is one.
\<close>

definition cooldown_inv :: "strategist \<Rightarrow> bool" where
  "cooldown_inv s =
     (sorted_wrt (\<lambda>a b. b - a \<ge> MIN_ADVICE_INTERVAL) (map fst (dispatch_log s))
      \<and> (\<forall>t \<in> set (map fst (dispatch_log s)). t \<le> lastAdviceTime s)
      \<and> (dispatch_log s \<noteq> [] \<longrightarrow> lastAdviceTime s = fst (last (dispatch_log s))))"

text \<open>A handler either leaves the dispatch state alone or makes one dispatch at \<open>now\<close>.\<close>

definition one_dispatch_at :: "int \<Rightarrow> strategist \<Rightarrow> strategist \<Rightarrow> bool" where
  "one_dispatch_at now s s' =
     ((dispatch_log s' = dispatch_log s \<and> lastAdviceTime s' = lastAdviceTime s
        \<and> overlay_sent s' = overlay_sent s)
      \<or> (\<exists>k. dispatch_log s' = dispatch_log s @ [(now, k)] \<and> lastAdviceTime s' = now
              \<and> now - lastAdviceTime s \<ge> MIN_ADVICE_INTERVAL))"

text \<open>
  Example data: a first snapshot without players, then a Baron kill at clock value
  100000, the end of the invocation it starts, and a Herald kill at 170000.
\<close>

definition empty_snapshot :: snapshot where
  "empty_snapshot = \<lparr>allPlayers = [], activePlayer_of = None, gameTime = 0\<rparr>"

definition objective_event :: "int \<Rightarrow> string \<Rightarrow> gameEvent" where
  "objective_event n nm =
     \<lparr>EventID = n, EventName = nm, EventTime = 1300, KillerName = Some ''e2'',
      VictimName = None, TurretKilled = None, InhibKilled = None, InhibRespawned = None\<rparr>"

definition cooldown_inputs :: "strategist_input list" where
  "cooldown_inputs =
     [Snapshot empty_snapshot 90000,
      NewEvents [objective_event 1 ''BaronKill''] 100000,
      InvokeSettled,
      NewEvents [objective_event 2 ''HeraldKill''] 170000]"

section \<open>The serial request queue\<close>

text \<open>
  Class \<open>BottleneckQueue\<close>. A task is named by its arrival number: the \<open>n\<close>-th call
  of \<open>enqueue\<close> (counting from 0) brings task \<open>n\<close>. \<open>#drain\<close> is an \<open>async\<close>
  method: it runs until it reaches an \<open>await\<close>, and goes on when the awaited promise
  settles. \<open>drain_at\<close> says where it stands: not running, inside
  \<open>await sleep(remaining)\<close>, inside \<open>await run()\<close> of a task, or ended by an
  exception (\<open>queue.shift()\<close> of an empty queue gives \<open>undefined\<close>, whose destructuring
  throws; \<open>running\<close> then stays true).

  \<open>dispatched\<close> lists the tasks in the order they were taken off the queue and run,
  \<open>rejected\<close> the tasks the queue rejected with "Riot API paused -- API key expired",
  \<open>settled\<close> the dispatched tasks whose result was passed on, with whether it was a
  success.
\<close>

datatype drain_position = NotDraining | ThrottleSleeping | Awaiting nat | Crashed

record bqueue =
  queue :: "nat list"
  running :: bool
  paused :: bool
  pauseUntil :: int
  windowTimestamps :: "int list"
  drain_at :: drain_position
  arrivals :: nat
  dispatched :: "nat list"
  rejected :: "nat list"
  settled :: "(nat \<times> bool) list"

definition new_bqueue :: bqueue where
  "new_bqueue =
     \<lparr>queue = [], running = False, paused = False, pauseUntil = 0, windowTimestamps = [],
      drain_at = NotDraining, arrivals = 0, dispatched = [], rejected = [], settled = []\<rparr>"

definition WINDOW_MS :: int where "WINDOW_MS = 120000"
definition PAUSE_DURATION_MS :: int where "PAUSE_DURATION_MS = 30000"

text \<open>\<open>WINDOW_MAX * THROTTLE_PCT\<close>, that is \<open>100 * 0.80\<close>, which is 80.\<close>

definition THROTTLE_COUNT :: nat where "THROTTLE_COUNT = 80"

definition pruneWindow :: "bqueue \<Rightarrow> int \<Rightarrow> bqueue" where
  "pruneWindow q now =
     q\<lparr>windowTimestamps := filter (\<lambda>t. t > now - WINDOW_MS) (windowTimestamps q)\<rparr>"

text \<open>Leaving the \<open>while\<close> loop: \<open>running = false\<close>.\<close>

definition exit_drain :: "bqueue \<Rightarrow> bqueue" where
  "exit_drain q = q\<lparr>running := False, drain_at := NotDraining\<rparr>"

text \<open>
  One iteration of the loop from the test for the indefinite pause on. When the
  80 percent threshold is reached the pause is set and \<open>continue\<close> leads to the loop head,
  which leaves the loop if the queue is empty and otherwise sleeps the
  \<open>PAUSE_DURATION_MS\<close> just set (\<open>Date.now()\<close> is positive).
\<close>

definition iteration_rest :: "bqueue \<Rightarrow> int \<Rightarrow> bqueue" where
  "iteration_rest q now =
     (if paused q \<and> pauseUntil q = 0 then exit_drain q
      else
        let q1 = pruneWindow q now
        in if length (windowTimestamps q1) \<ge> THROTTLE_COUNT
           then (let q2 = q1\<lparr>paused := True, pauseUntil := now + PAUSE_DURATION_MS\<rparr>
                 in if queue q2 = [] then exit_drain q2 else q2\<lparr>drain_at := ThrottleSleeping\<rparr>)
           else if queue q1 = [] then q1\<lparr>drain_at := Crashed\<rparr>
           else q1\<lparr>queue := tl (queue q1),
                    windowTimestamps := windowTimestamps q1 @ [now],
                    dispatched := dispatched q1 @ [hd (queue q1)],
                    drain_at := Awaiting (hd (queue q1))\<rparr>)"

text \<open>The loop from its head until it awaits or ends.\<close>

definition drain_loop :: "bqueue \<Rightarrow> int \<Rightarrow> bqueue" where
  "drain_loop q now =
     (if queue q = [] then exit_drain q
      else if paused q \<and> pauseUntil q > 0
      then (if pauseUntil q - now > 0 then q\<lparr>drain_at := ThrottleSleeping\<rparr>
            else iteration_rest (q\<lparr>paused := False, pauseUntil := 0\<rparr>) now)
      else iteration_rest q now)"

definition drain :: "bqueue \<Rightarrow> int \<Rightarrow> bqueue" where
  "drain q now = (if running q then q else drain_loop (q\<lparr>running := True\<rparr>) now)"

definition enqueue :: "bqueue \<Rightarrow> int \<Rightarrow> bqueue" where
  "enqueue q now =
     (if paused q \<and> pauseUntil q = 0
      then q\<lparr>arrivals := Suc (arrivals q), rejected := rejected q @ [arrivals q]\<rparr>
      else drain (q\<lparr>queue := queue q @ [arrivals q], arrivals := Suc (arrivals q)\<rparr>) now)"

text \<open>
  The promise of the running task settles: its result is passed on and the loop goes on.
\<close>

definition task_settled :: "bqueue \<Rightarrow> bool \<Rightarrow> int \<Rightarrow> bqueue" where
  "task_settled q ok now =
     (case drain_at q of
        Awaiting t \<Rightarrow> drain_loop (q\<lparr>settled := settled q @ [(t, ok)]\<rparr>) now
      | _ \<Rightarrow> q)"

text \<open>The throttle sleep is over: the pause is cleared and the iteration goes on.\<close>

definition sleep_over :: "bqueue \<Rightarrow> int \<Rightarrow> bqueue" where
  "sleep_over q now =
     (if drain_at q = ThrottleSleeping
      then iteration_rest (q\<lparr>paused := False, pauseUntil := 0\<rparr>) now
      else q)"

definition pause :: "bqueue \<Rightarrow> bqueue" where
  "pause q = q\<lparr>paused := True, pauseUntil := 0, rejected := rejected q @ queue q, queue := []\<rparr>"

definition resume :: "bqueue \<Rightarrow> bqueue" where
  "resume q = q\<lparr>paused := False, pauseUntil := 0\<rparr>"

text \<open>What can happen to a queue, in the order it happens.\<close>

datatype bq_event = Enqueue int | TaskSettled bool int | SleepOver int | Pause | Resume

fun bq_step :: "bqueue \<Rightarrow> bq_event \<Rightarrow> bqueue" where
  "bq_step q (Enqueue now) = enqueue q now"
| "bq_step q (TaskSettled ok now) = task_settled q ok now"
| "bq_step q (SleepOver now) = sleep_over q now"
| "bq_step q Pause = pause q"
| "bq_step q Resume = resume q"

definition bq_run :: "bq_event list \<Rightarrow> bqueue" where
  "bq_run evs = foldl bq_step new_bqueue evs"

text \<open>
  Invariants for the proof of the arrival order. The dispatched tasks followed by the
  waiting ones are in strictly increasing arrival order; every task that arrived is
  dispatched, waiting or rejected; the dispatched tasks are the settled ones, in order,
  followed by the one in flight if there is one.
\<close>

definition in_order :: "bqueue \<Rightarrow> bool" where
  "in_order q =
     (sorted_wrt (<) (dispatched q @ queue q)
      \<and> (\<forall>x \<in> set (dispatched q @ queue q). x < arrivals q)
      \<and> (\<forall>n < arrivals q. n \<in> set (dispatched q) \<union> set (queue q) \<union> set (rejected q)))"

definition all_settled :: "bqueue \<Rightarrow> bool" where
  "all_settled q = (dispatched q = map fst (settled q))"

fun in_flight :: "drain_position \<Rightarrow> nat list" where
  "in_flight (Awaiting t) = [t]"
| "in_flight _ = []"

definition one_in_flight :: "bqueue \<Rightarrow> bool" where
  "one_in_flight q =
     (running q = (drain_at q \<noteq> NotDraining)
      \<and> dispatched q = map fst (settled q) @ in_flight (drain_at q))"

text \<open>
  Example data: three tasks arrive while the first one runs or after it; the first two
  settle.
\<close>

definition fifo_events :: "bq_event list" where
  "fifo_events =
     [Enqueue 1000, Enqueue 1010, TaskSettled True 1200, Enqueue 1300, TaskSettled False 1400]"

section \<open>The Riot API client\<close>

text \<open>
  What an HTTPS request ends with: a response with its status code and the two headers
  the client reads (\<open>x-app-rate-limit\<close>, \<open>retry-after\<close>), or an error of the
  connection (a timeout too).
\<close>

datatype http_result = Response int "string option" "string option" | NetworkError

text \<open>How the promise of a request ends.\<close>

datatype request_outcome =
    Resolved
  | NotConfigured
  | Forbidden403
  | RateLimited429 jsnum
  | OtherFailure

datatype signal = key_expired | rate_limited jsnum

text \<open>
  Where \<open>#requestWithRetry\<close> of the dispatched task stands, with the number of the
  attempt: in one of its sleeps, waiting for the response, or done with the result not yet
  passed to the queue (the continuation of \<open>await run()\<close> is a microtask).
\<close>

datatype task_position =
    NoTask
  | LimiterSleep nat
  | SpacingSleep nat
  | BucketSleep nat
  | AwaitResponse nat
  | RetrySleep nat
  | Settling request_outcome

text \<open>
  Class \<open>RiotApiClient\<close>. \<open>apiKey\<close> is \<open>None\<close> when the key store has no key.
  \<open>queue\<close> of the class is \<open>requestQueue\<close>. The lists record, in order: the HTTPS
  requests sent (task and attempt), the durations \<open>#requestWithRetry\<close> slept, the signals
  emitted, how the promise of each dispatched task ended, and the clock values of the
  requests rejected with "Riot API key expired" before reaching the queue.
\<close>

record client =
  apiKey :: "string option"
  keyExpired :: bool
  appLimiter :: rateLimiter
  lastRequestTime :: int
  requestQueue :: bqueue
  request_at :: task_position
  http_requests :: "(nat \<times> nat) list"
  sleeps :: "jsnum list"
  emitted :: "signal list"
  outcomes :: "(nat \<times> request_outcome) list"
  expired_rejections :: "int list"

definition REQUEST_SPACING_MS :: int where "REQUEST_SPACING_MS = 50"
definition MAX_RETRIES :: nat where "MAX_RETRIES = 3"

definition new_client :: "string option \<Rightarrow> client" where
  "new_client key =
     \<lparr>apiKey = key, keyExpired = False, appLimiter = RateLimiter ''20:1,100:120'',
      lastRequestTime = 0, requestQueue = new_bqueue, request_at = NoTask,
      http_requests = [], sleeps = [], emitted = [], outcomes = [], expired_rejections = []\<rparr>"

subsection \<open>\<open>#requestWithRetry\<close> and \<open>#request\<close>\<close>

text \<open>
  Step 4: consume a token and fire the request. Without a key \<open>#request\<close> rejects at
  once; that error has no \<open>retryAfterMs\<close> and no \<open>statusCode\<close> and is rethrown.
\<close>

definition fire :: "client \<Rightarrow> nat \<Rightarrow> nat \<Rightarrow> int \<Rightarrow> client" where
  "fire c t a now =
     (let c1 = c\<lparr>appLimiter := rl_consume (appLimiter c) now, lastRequestTime := now\<rparr>
      in if \<not> str_truthy (apiKey c1) then c1\<lparr>request_at := Settling NotConfigured\<rparr>
         else c1\<lparr>http_requests := http_requests c1 @ [(t, a)], request_at := AwaitResponse a\<rparr>)"

text \<open>Step 3: check the buckets once more.\<close>

definition check_bucket :: "client \<Rightarrow> nat \<Rightarrow> nat \<Rightarrow> int \<Rightarrow> client" where
  "check_bucket c t a now =
     (let r = rl_canRequest (appLimiter c) now;
          c1 = c\<lparr>appLimiter := snd r\<rparr>
      in if \<not> fst r
         then (let w = rl_waitTime (appLimiter c1) now
               in c1\<lparr>appLimiter := snd w,
                      sleeps := sleeps c1 @ [js_add (fst w) (Num 50)],
                      request_at := BucketSleep a\<rparr>)
         else fire c1 t a now)"

text \<open>Step 2: the minimum spacing between requests.\<close>

definition check_spacing :: "client \<Rightarrow> nat \<Rightarrow> nat \<Rightarrow> int \<Rightarrow> client" where
  "check_spacing c t a now =
     (let elapsed = now - lastRequestTime c
      in if elapsed < REQUEST_SPACING_MS
         then c\<lparr>sleeps := sleeps c @ [Num (REQUEST_SPACING_MS - elapsed)],
                request_at := SpacingSleep a\<rparr>
         else check_bucket c t a now)"

text \<open>Step 1, the start of an attempt: wait for the rate limiter.\<close>

definition requestWithRetry :: "client \<Rightarrow> nat \<Rightarrow> nat \<Rightarrow> int \<Rightarrow> client" where
  "requestWithRetry c t a now =
     (let w = rl_waitTime (appLimiter c) now;
          c1 = c\<lparr>appLimiter := snd w\<rparr>
      in if js_lt (Num 0) (fst w)
         then c1\<lparr>sleeps := sleeps c1 @ [js_add (fst w) (Num 50)], request_at := LimiterSleep a\<rparr>
         else check_spacing c1 t a now)"

text \<open>\<open>parseInt(res.headers["retry-after"] || "1", 10) * 1000\<close>.\<close>

definition retryAfterMs :: "string option \<Rightarrow> jsnum" where
  "retryAfterMs h = js_mul (parseInt10 (if str_truthy h then the h else ''1'')) (Num 1000)"

text \<open>
  The end of the response, and step 5 and 6 of \<open>#requestWithRetry\<close>: a 429 is retried
  after the sleep when \<open>err.retryAfterMs && attempt < MAX_RETRIES\<close>; otherwise
  \<open>rate-limited\<close> is emitted and the error thrown. A 403 marks the key expired, pauses
  the queue and emits \<open>key-expired\<close>, unless the key is already marked.
\<close>

fun on_response :: "client \<Rightarrow> nat \<Rightarrow> http_result \<Rightarrow> client" where
  "on_response c a NetworkError = c\<lparr>request_at := Settling OtherFailure\<rparr>"
| "on_response c a (Response status appLimit retryAfter) =
     (let c1 = (if str_truthy appLimit
                then c\<lparr>appLimiter := update (appLimiter c) (the appLimit)\<rparr> else c)
      in if status = 200 then c1\<lparr>request_at := Settling Resolved\<rparr>
         else if status = 429
         then (if js_truthy (retryAfterMs retryAfter) \<and> a < MAX_RETRIES
               then c1\<lparr>sleeps := sleeps c1 @ [retryAfterMs retryAfter],
                       request_at := RetrySleep (Suc a)\<rparr>
               else c1\<lparr>emitted := emitted c1 @ [rate_limited (retryAfterMs retryAfter)],
                       request_at := Settling (RateLimited429 (retryAfterMs retryAfter))\<rparr>)
         else if status = 403
         then (if \<not> keyExpired c1
               then c1\<lparr>keyExpired := True,
                       requestQueue := pause (requestQueue c1),
                       emitted := emitted c1 @ [key_expired],
                       request_at := Settling Forbidden403\<rparr>
               else c1\<lparr>request_at := Settling Forbidden403\<rparr>)
         else c1\<lparr>request_at := Settling OtherFailure\<rparr>)"

subsection \<open>The client and its queue\<close>

text \<open>The task the queue is awaiting, if any.\<close>

fun awaited :: "drain_position \<Rightarrow> nat option" where
  "awaited (Awaiting t) = Some t"
| "awaited _ = None"

text \<open>
  When the queue has just dispatched a task, \<open>run()\<close> starts its first attempt.
\<close>

definition start_dispatched :: "client \<Rightarrow> int \<Rightarrow> client" where
  "start_dispatched c now =
     (if awaited (drain_at (requestQueue c)) \<noteq> None \<and> request_at c = NoTask
      then requestWithRetry c (the (awaited (drain_at (requestQueue c)))) 0 now
      else c)"

text \<open>\<open>#platformRequest\<close> and \<open>#regionalRequest\<close>.\<close>

definition submit :: "client \<Rightarrow> int \<Rightarrow> client" where
  "submit c now =
     (if keyExpired c then c\<lparr>expired_rejections := expired_rejections c @ [now]\<rparr>
      else start_dispatched (c\<lparr>requestQueue := enqueue (requestQueue c) now\<rparr>) now)"

text \<open>A sleep is over: the throttle sleep of the queue, or a sleep of the running task.\<close>

definition timer_fired :: "client \<Rightarrow> int \<Rightarrow> client" where
  "timer_fired c now =
     (if drain_at (requestQueue c) = ThrottleSleeping
      then start_dispatched (c\<lparr>requestQueue := sleep_over (requestQueue c) now\<rparr>) now
      else if awaited (drain_at (requestQueue c)) = None then c
      else let t = the (awaited (drain_at (requestQueue c)))
           in (case request_at c of
                 LimiterSleep a \<Rightarrow> check_spacing c t a now
               | SpacingSleep a \<Rightarrow> check_bucket c t a now
               | BucketSleep a \<Rightarrow> fire c t a now
               | RetrySleep a \<Rightarrow> requestWithRetry c t a now
               | _ \<Rightarrow> c))"

text \<open>The request of the running task ends.\<close>

definition request_ended :: "client \<Rightarrow> http_result \<Rightarrow> client" where
  "request_ended c r =
     (case request_at c of
        AwaitResponse a \<Rightarrow> on_response c a r
      | _ \<Rightarrow> c)"

text \<open>
  The result of the running task reaches the queue, which passes it on and goes on with
  its loop.
\<close>

definition pass_result :: "client \<Rightarrow> int \<Rightarrow> client" where
  "pass_result c now =
     (case request_at c of
        Settling outcome \<Rightarrow>
          (if awaited (drain_at (requestQueue c)) = None then c
           else start_dispatched
                  (c\<lparr>outcomes := outcomes c @ [(the (awaited (drain_at (requestQueue c))), outcome)],
                     request_at := NoTask,
                     requestQueue := task_settled (requestQueue c) (outcome = Resolved) now\<rparr>)
                  now)
      | _ \<Rightarrow> c)"

text \<open>\<open>reloadKey()\<close>; the argument is what the key store holds.\<close>

definition reloadKey :: "client \<Rightarrow> string option \<Rightarrow> client" where
  "reloadKey c key =
     (let c1 = c\<lparr>apiKey := key\<rparr>
      in if str_truthy key
         then c1\<lparr>keyExpired := False, requestQueue := resume (requestQueue c1)\<rparr>
         else c1)"

datatype client_event =
    Submit int
  | TimerFired int
  | RequestEnded http_result
  | ResultPassed int
  | ReloadKey "string option"

fun client_step :: "client \<Rightarrow> client_event \<Rightarrow> client" where
  "client_step c (Submit now) = submit c now"
| "client_step c (TimerFired now) = timer_fired c now"
| "client_step c (RequestEnded r) = request_ended c r"
| "client_step c (ResultPassed now) = pass_result c now"
| "client_step c (ReloadKey key) = reloadKey c key"

text \<open>
  The events between a 403 and the next reload that finds a key: anything but such a
  reload.
\<close>

fun no_reload :: "client_event \<Rightarrow> bool" where
  "no_reload (ReloadKey key) = (\<not> str_truthy key)"
| "no_reload _ = True"

fun is_submit :: "client_event \<Rightarrow> bool" where
  "is_submit (Submit now) = True"
| "is_submit _ = False"

fun is_result_passed :: "client_event \<Rightarrow> bool" where
  "is_result_passed (ResultPassed now) = True"
| "is_result_passed _ = False"

text \<open>The clock values of the requests submitted by a list of events.\<close>

fun submit_times :: "client_event list \<Rightarrow> int list" where
  "submit_times [] = []"
| "submit_times (Submit now # evs) = now # submit_times evs"
| "submit_times (_ # evs) = submit_times evs"

text \<open>No task is dispatched and the loop of the queue is not running.\<close>

definition idle :: "client \<Rightarrow> bool" where
  "idle c =
     (drain_at (requestQueue c) = NotDraining \<and> \<not> running (requestQueue c)
      \<and> request_at c = NoTask)"

text \<open>The requests of the sliding window that \<open>#pruneWindow\<close> keeps at \<open>now\<close>.\<close>

definition window_usage :: "bqueue \<Rightarrow> int \<Rightarrow> nat" where
  "window_usage q now = length (filter (\<lambda>t. t > now - WINDOW_MS) (windowTimestamps q))"

text \<open>
  The state of a client whose key has expired, for a fixed list of signals and of
  requests: the queue is paused for good and empty, and the task that met the 403 is
  done, its result passed on or not yet.
\<close>

definition expired_state :: "signal list \<Rightarrow> (nat \<times> nat) list \<Rightarrow> client \<Rightarrow> bool" where
  "expired_state sig reqs c =
     (keyExpired c
      \<and> paused (requestQueue c) \<and> pauseUntil (requestQueue c) = 0
      \<and> queue (requestQueue c) = []
      \<and> emitted c = sig \<and> http_requests c = reqs
      \<and> ((awaited (drain_at (requestQueue c)) \<noteq> None \<and> request_at c = Settling Forbidden403)
          \<or> idle c))"

text \<open>
  Example data: three requests are submitted at once, the first one meets a 403, a fourth
  is submitted before and a fifth after the result of the first has been passed on.
\<close>

definition three_submitted :: client where
  "three_submitted =
     foldl client_step (new_client (Some ''RGAPI-old'')) [Submit 1000, Submit 1000, Submit 1000]"

definition while_expired :: "client_event list" where
  "while_expired = [Submit 1100, ResultPassed 1101, TimerFired 1200, Submit 1300, ReloadKey None]"

section \<open>The orchestrator\<close>

text \<open>
  The agents are named by the three strings that occur as values of
  \<open>PHASE_AGENT_MAP\<close>; these are the only names the orchestrator ever passes to
  \<open>#activateAgent\<close>, \<open>#deactivateAgent\<close> and \<open>#createAgent\<close>.
\<close>

datatype agentId = drafting_oracle | macro_strategist | tilt_guard

fun PHASE_AGENT_MAP :: "GamePhase \<Rightarrow> agentId option" where
  "PHASE_AGENT_MAP IDLE = None"
| "PHASE_AGENT_MAP LOBBY = None"
| "PHASE_AGENT_MAP CHAMP_SELECT = Some drafting_oracle"
| "PHASE_AGENT_MAP LOADING = None"
| "PHASE_AGENT_MAP IN_GAME = Some macro_strategist"
| "PHASE_AGENT_MAP POST_GAME = Some tilt_guard"

fun PHASE_OVERLAY_MAP :: "GamePhase \<Rightarrow> string list" where
  "PHASE_OVERLAY_MAP IDLE = []"
| "PHASE_OVERLAY_MAP LOBBY = []"
| "PHASE_OVERLAY_MAP CHAMP_SELECT = [''draft'']"
| "PHASE_OVERLAY_MAP LOADING = []"
| "PHASE_OVERLAY_MAP IN_GAME = [''macro'']"
| "PHASE_OVERLAY_MAP POST_GAME = [''tilt'']"

text \<open>
  \<open>PHASE_AGENT_MAP[phase]\<close> and \<open>PHASE_OVERLAY_MAP[phase] || []\<close>. A phase value
  that is no phase (a member inherited from \<open>Object.prototype\<close>) is turned into a
  key that neither table nor its prototype has, so the read gives \<open>undefined\<close>.
\<close>

definition phase_agent :: "phase_value \<Rightarrow> agentId option" where
  "phase_agent v = (case v of Phase p \<Rightarrow> PHASE_AGENT_MAP p | Inherited _ \<Rightarrow> None)"

definition phase_overlays :: "phase_value \<Rightarrow> string list" where
  "phase_overlays v = (case v of Phase p \<Rightarrow> PHASE_OVERLAY_MAP p | Inherited _ \<Rightarrow> [])"

subsection \<open>The bodies of the lifecycle methods\<close>

text \<open>
  An \<open>async\<close> method runs synchronously, inside its caller, up to its first
  \<open>await\<close>; what follows the \<open>await\<close> runs later, as a continuation. The bodies of
  \<open>onActivate\<close> and \<open>onDeactivate\<close> are therefore given as lists of statements, each
  either synchronous or an \<open>await\<close>; the strings name the statement of the source.
\<close>

datatype stmt = Sync string | Await string

fun is_sync :: "stmt \<Rightarrow> bool" where
  "is_sync (Sync _) = True"
| "is_sync (Await _) = False"

fun onActivate_body :: "agentId \<Rightarrow> stmt list" where
  "onActivate_body drafting_oracle =
     [Sync ''logger.info'', Sync ''enemyDataCache.clear'', Sync ''lastActionHash = empty'',
      Sync ''invoking = false'', Sync ''finalized = false'',
      Sync ''pollTimer = setInterval(pollChampSelect, 3000)'', Await ''pollChampSelect'']"
| "onActivate_body macro_strategist =
     [Sync ''logger.info'', Sync ''triggerDetector.reset'', Sync ''latestSnapshot = null'',
      Sync ''recentEvents = []'', Sync ''lastAdviceTime = 0'', Sync ''invoking = false'',
      Sync ''callCounter = 0'', Sync ''liveClient.on(snapshot)'',
      Sync ''liveClient.on(new-events)'', Sync ''liveClient.startPolling(10000, 5000)'']"
| "onActivate_body tilt_guard =
     [Sync ''logger.info'', Sync ''processed = false'', Sync ''ensureSession'',
      Await ''processPostGame'']"

fun onDeactivate_body :: "agentId \<Rightarrow> stmt list" where
  "onDeactivate_body drafting_oracle =
     [Sync ''clearInterval(pollTimer)'', Sync ''enemyDataCache.clear'',
      Sync ''invoking = false'', Sync ''finalized = false'', Sync ''logger.info'']"
| "onDeactivate_body macro_strategist =
     [Sync ''liveClient.stopPolling'', Sync ''liveClient.removeListener(snapshot)'',
      Sync ''liveClient.removeListener(new-events)'', Sync ''triggerDetector.reset'',
      Sync ''invoking = false'', Sync ''logger.info'']"
| "onDeactivate_body tilt_guard = [Sync ''processed = false'', Sync ''logger.info'']"

subsection \<open>State\<close>

text \<open>An agent object: its name and the private flag \<open>#active\<close> of \<open>BaseAgent\<close>.\<close>

record agent =
  agent_name :: agentId
  active :: bool

text \<open>
  What is observed of a run: the calls of \<open>onActivate\<close> and \<open>onDeactivate\<close> with
  their ends, the messages published on the event bus, and the overlay commands.
\<close>

datatype trace_event =
    OnActivateBegin agentId
  | OnActivateEnd agentId
  | OnActivateThrew agentId
  | OnDeactivateBegin agentId
  | OnDeactivateEnd agentId
  | OnDeactivateThrew agentId
  | Published string agentId
  | OverlayHide string
  | OverlayShow string
  | BroadcastPhaseChange phase_value
  | PublishedPhaseChanged phase_value phase_value

text \<open>
  The continuations left behind by the \<open>await\<close>s. The number is the agent object, the
  agent name is the key under which \<open>#activateAgent\<close> or \<open>#deactivateAgent\<close> waits
  for the object's \<open>start()\<close> or \<open>stop()\<close>.
\<close>

datatype continuation =
    OnDeactivate_rest nat agentId "stmt list"
  | Stop_rest nat agentId
  | DeactivateAgent_rest agentId
  | OnActivate_rest nat agentId "stmt list"
  | Start_rest nat agentId bool
  | ActivateAgent_rest agentId

text \<open>
  The orchestrator. \<open>agents\<close> holds the agent objects created so far, by number;
  \<open>getSetting\<close> is the value \<open>queries.getSetting\<close> returns for the key
  \<open>agent_<name>_enabled\<close> of an agent. Log lines and the tray text are left out.
\<close>

record orchestrator =
  stateMachine :: stateMachine
  activeAgents :: "agentId \<rightharpoonup> nat"
  agents :: "nat \<Rightarrow> agent"
  created :: nat
  getSetting :: "agentId \<Rightarrow> string option"
  pending :: "continuation list"
  history :: "trace_event list"

definition new_orchestrator :: "(agentId \<Rightarrow> string option) \<Rightarrow> orchestrator" where
  "new_orchestrator settings =
     \<lparr>stateMachine = new_stateMachine, activeAgents = Map.empty,
      agents = (\<lambda>_. \<lparr>agent_name = drafting_oracle, active = False\<rparr>), created = 0,
      getSetting = settings, pending = [], history = []\<rparr>"

subsection \<open>\<open>BaseAgent.stop\<close> and \<open>BaseAgent.start\<close>\<close>

text \<open>
  The statements \<open>body\<close> of \<open>onDeactivate\<close> of object \<open>i\<close> run up to the next
  \<open>await\<close>. When none is left the method has completed, and \<open>stop()\<close>, which awaits
  it, goes on later.
\<close>

definition run_onDeactivate :: "orchestrator \<Rightarrow> nat \<Rightarrow> agentId \<Rightarrow> stmt list \<Rightarrow> orchestrator" where
  "run_onDeactivate orc i a body =
     (if list_all is_sync body
      then orc\<lparr>history := history orc @ [OnDeactivateEnd (agent_name (agents orc i))],
               pending := pending orc @ [Stop_rest i a]\<rparr>
      else orc\<lparr>pending := pending orc @ [OnDeactivate_rest i a (tl (dropWhile is_sync body))]\<rparr>)"

definition run_onActivate :: "orchestrator \<Rightarrow> nat \<Rightarrow> agentId \<Rightarrow> stmt list \<Rightarrow> orchestrator" where
  "run_onActivate orc i a body =
     (if list_all is_sync body
      then orc\<lparr>history := history orc @ [OnActivateEnd (agent_name (agents orc i))],
               pending := pending orc @ [Start_rest i a False]\<rparr>
      else orc\<lparr>pending := pending orc @ [OnActivate_rest i a (tl (dropWhile is_sync body))]\<rparr>)"

text \<open>
  \<open>stop()\<close> of object \<open>i\<close>, called by \<open>#deactivateAgent(a)\<close>, up to its \<open>await\<close>.
  When the object is not active \<open>stop()\<close> returns at once and the caller goes on later.
\<close>

definition stop :: "orchestrator \<Rightarrow> nat \<Rightarrow> agentId \<Rightarrow> orchestrator" where
  "stop orc i a =
     (if \<not> active (agents orc i) then orc\<lparr>pending := pending orc @ [DeactivateAgent_rest a]\<rparr>
      else run_onDeactivate
             (orc\<lparr>agents := (agents orc)(i := (agents orc i)\<lparr>active := False\<rparr>),
                  history := history orc @ [OnDeactivateBegin (agent_name (agents orc i))]\<rparr>)
             i a (onDeactivate_body (agent_name (agents orc i))))"

definition start :: "orchestrator \<Rightarrow> nat \<Rightarrow> agentId \<Rightarrow> orchestrator" where
  "start orc i a =
     (if active (agents orc i) then orc\<lparr>pending := pending orc @ [ActivateAgent_rest a]\<rparr>
      else run_onActivate
             (orc\<lparr>agents := (agents orc)(i := (agents orc i)\<lparr>active := True\<rparr>),
                  history := history orc @ [OnActivateBegin (agent_name (agents orc i))]\<rparr>)
             i a (onActivate_body (agent_name (agents orc i))))"

subsection \<open>\<open>#deactivateAgent\<close>, \<open>#activateAgent\<close> and \<open>#onPhaseTransition\<close>\<close>

definition createAgent :: "agentId \<Rightarrow> agent option" where
  "createAgent a = Some \<lparr>agent_name = a, active = False\<rparr>"

text \<open>The two methods up to their \<open>await\<close>; the caller does not wait for them.\<close>

definition deactivateAgent :: "orchestrator \<Rightarrow> agentId \<Rightarrow> orchestrator" where
  "deactivateAgent orc a =
     (case activeAgents orc a of
        None \<Rightarrow> orc
      | Some i \<Rightarrow> stop orc i a)"

definition register :: "orchestrator \<Rightarrow> agentId \<Rightarrow> agent \<Rightarrow> orchestrator" where
  "register orc a obj =
     orc\<lparr>agents := (agents orc)(created orc := obj), created := Suc (created orc),
         activeAgents := (activeAgents orc)(a \<mapsto> created orc),
         history := history orc @ [Published ''agent:activated'' a]\<rparr>"

definition activateAgent :: "orchestrator \<Rightarrow> agentId \<Rightarrow> orchestrator" where
  "activateAgent orc a =
     (if activeAgents orc a \<noteq> None then orc
      else if getSetting orc a = Some ''false'' then orc
      else case createAgent a of
             None \<Rightarrow> orc
           | Some obj \<Rightarrow> start (register orc a obj) (created orc) a)"

definition deactivate_previous :: "orchestrator \<Rightarrow> phase_value \<Rightarrow> orchestrator" where
  "deactivate_previous orc from =
     (case phase_agent from of None \<Rightarrow> orc | Some prevAgent \<Rightarrow> deactivateAgent orc prevAgent)"

definition activate_new :: "orchestrator \<Rightarrow> phase_value \<Rightarrow> orchestrator" where
  "activate_new orc to =
     (case phase_agent to of None \<Rightarrow> orc | Some newAgent \<Rightarrow> activateAgent orc newAgent)"

definition observe :: "orchestrator \<Rightarrow> trace_event list \<Rightarrow> orchestrator" where
  "observe orc es = orc\<lparr>history := history orc @ es\<rparr>"

definition onPhaseTransition :: "orchestrator \<Rightarrow> phase_value \<Rightarrow> phase_value \<Rightarrow> orchestrator" where
  "onPhaseTransition orc from to =
     observe
       (activate_new
          (observe (deactivate_previous orc from) (map OverlayHide (phase_overlays from)))
          to)
       (map OverlayShow (phase_overlays to)
        @ [BroadcastPhaseChange to, PublishedPhaseChanged from to])"

text \<open>
  The handler of the connector's \<open>phase-changed\<close> event: the state machine calls
  \<open>#onPhaseTransition\<close> exactly when a transition occurs.
\<close>

definition phase_changed :: "orchestrator \<Rightarrow> string \<Rightarrow> orchestrator" where
  "phase_changed orc lcuPhase =
     (case transitionFromLCU (stateMachine orc) lcuPhase of
        Inl err \<Rightarrow> orc
      | Inr r \<Rightarrow>
          if fst r
          then onPhaseTransition (orc\<lparr>stateMachine := snd r\<rparr>)
                 (currentPhase (stateMachine orc)) (currentPhase (snd r))
          else orc)"

subsection \<open>Continuations\<close>

text \<open>
  One continuation goes on; \<open>threw\<close> tells whether the promise it awaited was
  rejected. \<open>start()\<close> and \<open>stop()\<close> catch what \<open>onActivate\<close> and \<open>onDeactivate\<close>
  throw, so the \<open>catch\<close> blocks of the orchestrator are never entered.
\<close>

fun continue :: "orchestrator \<Rightarrow> continuation \<Rightarrow> bool \<Rightarrow> orchestrator" where
  "continue orc (OnDeactivate_rest i a rest) threw =
     (if threw
      then orc\<lparr>history := history orc @ [OnDeactivateThrew (agent_name (agents orc i))],
               pending := pending orc @ [Stop_rest i a]\<rparr>
      else run_onDeactivate orc i a rest)"
| "continue orc (Stop_rest i a) threw = orc\<lparr>pending := pending orc @ [DeactivateAgent_rest a]\<rparr>"
| "continue orc (DeactivateAgent_rest a) threw =
     orc\<lparr>activeAgents := (activeAgents orc)(a := None),
         history := history orc @ [Published ''agent:deactivated'' a]\<rparr>"
| "continue orc (OnActivate_rest i a rest) threw =
     (if threw
      then orc\<lparr>history := history orc @ [OnActivateThrew (agent_name (agents orc i))],
               pending := pending orc @ [Start_rest i a True]\<rparr>
      else run_onActivate orc i a rest)"
| "continue orc (Start_rest i a failed) threw =
     (if failed then orc\<lparr>agents := (agents orc)(i := (agents orc i)\<lparr>active := False\<rparr>)\<rparr> else orc)
       \<lparr>pending := pending orc @ [ActivateAgent_rest a]\<rparr>"
| "continue orc (ActivateAgent_rest a) threw = orc"

definition resume_pending :: "orchestrator \<Rightarrow> nat \<Rightarrow> bool \<Rightarrow> orchestrator" where
  "resume_pending orc k threw =
     (if k < length (pending orc)
      then continue (orc\<lparr>pending := take k (pending orc) @ drop (Suc k) (pending orc)\<rparr>)
             (pending orc ! k) threw
      else orc)"

subsection \<open>Reading the history\<close>

fun is_onDeactivate :: "trace_event \<Rightarrow> bool" where
  "is_onDeactivate (OnDeactivateBegin a) = True"
| "is_onDeactivate (OnDeactivateEnd a) = True"
| "is_onDeactivate (OnDeactivateThrew a) = True"
| "is_onDeactivate _ = False"

fun is_OnActivateBegin :: "trace_event \<Rightarrow> bool" where
  "is_OnActivateBegin (OnActivateBegin a) = True"
| "is_OnActivateBegin _ = False"

fun is_begin :: "trace_event \<Rightarrow> bool" where
  "is_begin (OnActivateBegin a) = True"
| "is_begin (OnDeactivateBegin a) = True"
| "is_begin _ = False"

text \<open>
  The calls of \<open>onDeactivate\<close> that \<open>#onPhaseTransition\<close> observes when it leaves
  the phase \<open>from\<close>, read off the state before the transition.
\<close>

definition deactivation :: "orchestrator \<Rightarrow> phase_value \<Rightarrow> trace_event list" where
  "deactivation orc from =
     (case phase_agent from of
        None \<Rightarrow> []
      | Some p \<Rightarrow>
          (case activeAgents orc p of
             None \<Rightarrow> []
           | Some i \<Rightarrow>
               if active (agents orc i)
               then [OnDeactivateBegin (agent_name (agents orc i)),
                     OnDeactivateEnd (agent_name (agents orc i))]
               else []))"

text \<open>Example data: the client reports a game in progress, all agents enabled.\<close>

definition in_game :: orchestrator where
  "in_game = phase_changed (new_orchestrator (\<lambda>a. None)) ''InProgress''"

chapter \<open>Properties\<close>

section \<open>Rate buckets: parsing and admission\<close>

lemma prune_Num:
  "windowMs b = Num w \<Longrightarrow> timestamps (prune b now) = filter (\<lambda>t. now - w < t) (timestamps b)"
  by (simp add: prune_def)

lemma prune_fields [simp]:
  "max_b (prune b now) = max_b b" "windowMs (prune b now) = windowMs b"
  by (simp_all add: prune_def)

lemma sorted_filter_hd_Min:
  "sorted xs \<Longrightarrow> filter P xs \<noteq> [] \<Longrightarrow> hd (filter P xs) = Min (set (filter P xs))"
proof -
  assume s: "sorted xs" and ne: "filter P xs \<noteq> []"
  have so: "sorted (filter P xs)" using s by (rule sorted_wrt_filter)
  obtain y ys where e: "filter P xs = y # ys" using ne by (cases "filter P xs") auto
  have "\<forall>z \<in> set ys. y \<le> z" using so e by simp
  then have "Min (set (y # ys)) = y"
    by (intro Min_eqI) auto
  then show ?thesis using e by simp
qed

lemma parse_limits: "parseBuckets ''20:1,100:120'' =
         [\<lparr>max_b = Num 20, windowMs = Num 1000, timestamps = []\<rparr>,
          \<lparr>max_b = Num 100, windowMs = Num 120000, timestamps = []\<rparr>]"
  by (simp add: parseBuckets_def Bucket_def Number_js_def num_at_def is_digit_def dec_value_def digit_val_def)

lemma parse_empty: "parseBuckets '''' =
         [\<lparr>max_b = Num 20, windowMs = Num 1000, timestamps = []\<rparr>,
          \<lparr>max_b = Num 100, windowMs = Num 120000, timestamps = []\<rparr>]"
  by (simp add: parseBuckets_def Bucket_def)

text \<open>
  Claim C7, as the program has it. \<open>parseBuckets\<close> reads \<open>20:1,100:120\<close> as
  exactly the two buckets 20 per 1 s and 100 per 120 s, and the empty header as the same
  pair. For every bucket whose capacity is a number \<open>m\<close> and whose window is a number
  of \<open>w\<close> ms: pruning leaves the timestamps younger than the window; \<open>canRequest\<close>
  is true iff fewer than \<open>m\<close> of them remain; \<open>waitTime\<close> is 0 when the bucket
  admits and, at capacity with a timestamp remaining, the first remaining timestamp plus
  the window minus now. At capacity a timestamp remains whenever \<open>m\<close> is positive, and
  the first remaining timestamp is the oldest one when the timestamps were recorded in
  time order.
\<close>

theorem C7_bucket_parse_and_admission:
  "parseBuckets ''20:1,100:120'' =
         [\<lparr>max_b = Num 20, windowMs = Num 1000, timestamps = []\<rparr>,
          \<lparr>max_b = Num 100, windowMs = Num 120000, timestamps = []\<rparr>]
   \<and> parseBuckets '''' = parseBuckets ''20:1,100:120''
   \<and> (max_b b = Num m \<and> windowMs b = Num w \<longrightarrow>
        (let remaining = filter (\<lambda>t. now - w < t) (timestamps b);
             admitted = (int (length remaining) < m)
         in timestamps (snd (canRequest b now)) = remaining
          \<and> fst (canRequest b now) = admitted
          \<and> (admitted \<longrightarrow> fst (waitTime b now) = Num 0)
          \<and> (\<not> admitted \<and> remaining \<noteq> [] \<longrightarrow>
                fst (waitTime b now) = Num (hd remaining + w - now))
          \<and> (\<not> admitted \<and> 0 < m \<longrightarrow> remaining \<noteq> [])
          \<and> (sorted (timestamps b) \<and> remaining \<noteq> [] \<longrightarrow> hd remaining = Min (set remaining))))"
proof (intro conjI impI)
  show "parseBuckets ''20:1,100:120'' =
         [\<lparr>max_b = Num 20, windowMs = Num 1000, timestamps = []\<rparr>,
          \<lparr>max_b = Num 100, windowMs = Num 120000, timestamps = []\<rparr>]"
    by (rule parse_limits)
  show "parseBuckets '''' = parseBuckets ''20:1,100:120''"
    by (simp only: parse_limits parse_empty)
next
  assume h: "max_b b = Num m \<and> windowMs b = Num w"
  then have p: "timestamps (prune b now) = filter (\<lambda>t. now - w < t) (timestamps b)"
    by (simp add: prune_Num)
  show "let remaining = filter (\<lambda>t. now - w < t) (timestamps b);
             admitted = (int (length remaining) < m)
         in timestamps (snd (canRequest b now)) = remaining
          \<and> fst (canRequest b now) = admitted
          \<and> (admitted \<longrightarrow> fst (waitTime b now) = Num 0)
          \<and> (\<not> admitted \<and> remaining \<noteq> [] \<longrightarrow>
                fst (waitTime b now) = Num (hd remaining + w - now))
          \<and> (\<not> admitted \<and> 0 < m \<longrightarrow> remaining \<noteq> [])
          \<and> (sorted (timestamps b) \<and> remaining \<noteq> [] \<longrightarrow> hd remaining = Min (set remaining))"
    unfolding Let_def
  proof (intro conjI impI)
    show "timestamps (snd (canRequest b now)) = filter (\<lambda>t. now - w < t) (timestamps b)"
      using p by (simp add: canRequest_def Let_def)
    show "fst (canRequest b now) = (int (length (filter (\<lambda>t. now - w < t) (timestamps b))) < m)"
      using p h by (simp add: canRequest_def Let_def)
    show "fst (waitTime b now) = Num 0"
      if "int (length (filter (\<lambda>t. now - w < t) (timestamps b))) < m"
      using that p h by (simp add: waitTime_def Let_def)
    show "fst (waitTime b now) = Num (hd (filter (\<lambda>t. now - w < t) (timestamps b)) + w - now)"
      if "\<not> int (length (filter (\<lambda>t. now - w < t) (timestamps b))) < m
          \<and> filter (\<lambda>t. now - w < t) (timestamps b) \<noteq> []"
      using that p h by (cases "filter (\<lambda>t. now - w < t) (timestamps b)") (simp_all add: waitTime_def Let_def)
    show "filter (\<lambda>t. now - w < t) (timestamps b) \<noteq> []"
      if "\<not> int (length (filter (\<lambda>t. now - w < t) (timestamps b))) < m \<and> 0 < m"
      using that by auto
    show "hd (filter (\<lambda>t. now - w < t) (timestamps b)) = Min (set (filter (\<lambda>t. now - w < t) (timestamps b)))"
      if "sorted (timestamps b) \<and> filter (\<lambda>t. now - w < t) (timestamps b) \<noteq> []"
      using that sorted_filter_hd_Min by blast
  qed
qed

text \<open>
  The theorem at a bucket of capacity 2 per second holding three timestamps: at 1200 two
  of them remain, the bucket is at capacity and the wait is 600 + 1000 - 1200; at 1700
  one remains and the bucket admits.
\<close>

theorem C7_bucket_parse_and_admission_witness:
  "max_b \<lparr>max_b = Num 2, windowMs = Num 1000, timestamps = [100, 600, 900]\<rparr> = Num 2
   \<and> windowMs \<lparr>max_b = Num 2, windowMs = Num 1000, timestamps = [100, 600, 900]\<rparr> = Num 1000
   \<and> sorted [100, 600, 900 :: int]
   \<and> (0::int) < 2
   \<and> filter (\<lambda>t. 1200 - 1000 < t) [100, 600, 900 :: int] = [600, 900]
   \<and> fst (canRequest \<lparr>max_b = Num 2, windowMs = Num 1000, timestamps = [100, 600, 900]\<rparr> 1200) = False
   \<and> fst (waitTime \<lparr>max_b = Num 2, windowMs = Num 1000, timestamps = [100, 600, 900]\<rparr> 1200) = Num 400
   \<and> fst (canRequest \<lparr>max_b = Num 2, windowMs = Num 1000, timestamps = [100, 600, 900]\<rparr> 1700) = True
   \<and> fst (waitTime \<lparr>max_b = Num 2, windowMs = Num 1000, timestamps = [100, 600, 900]\<rparr> 1700) = Num 0"
  using C7_bucket_parse_and_admission [of "\<lparr>max_b = Num 2, windowMs = Num 1000, timestamps = [100, 600, 900]\<rparr>" 2 1000 1200]
        C7_bucket_parse_and_admission [of "\<lparr>max_b = Num 2, windowMs = Num 1000, timestamps = [100, 600, 900]\<rparr>" 2 1000 1700]
  by (simp add: Let_def)

text \<open>
  The claim as written speaks of every bucket. The header \<open>0:1\<close> is parsed to a bucket
  of capacity 0: it holds no timestamp and is at capacity, there is no oldest timestamp,
  and \<open>waitTime\<close> reads \<open>timestamps[0]\<close> of the empty array and returns \<open>NaN\<close>.
\<close>

theorem C7_zero_capacity_counterexample:
  "parseBuckets ''0:1'' = [Bucket (Num 0) (Num 1)]
   \<and> timestamps (snd (canRequest (Bucket (Num 0) (Num 1)) 5000)) = []
   \<and> fst (canRequest (Bucket (Num 0) (Num 1)) 5000) = False
   \<and> fst (waitTime (Bucket (Num 0) (Num 1)) 5000) = NaN"
  by code_simp

section \<open>Event poller: event IDs increase across emissions\<close>

lemma Math_max_ints_ge: "x \<in> set xs \<Longrightarrow> x \<le> Math_max_ints xs"
proof -
  have g: "\<And>a. a \<le> foldl max a ys \<and> (\<forall>y\<in>set ys. y \<le> foldl max a ys)" for ys :: "int list"
  proof (induction ys)
    case Nil show ?case by simp
  next
    case (Cons y ys)
    have 1: "max a y \<le> foldl max (max a y) ys \<and> (\<forall>z\<in>set ys. z \<le> foldl max (max a y) ys)"
      using Cons.IH by blast
    have "a \<le> max a y" "y \<le> max a y" by simp_all
    with 1 show ?case by (auto intro: order_trans)
  qed
  assume "x \<in> set xs"
  then obtain a ys where e: "xs = a # ys" by (cases xs) auto
  with \<open>x \<in> set xs\<close> g[of a ys] show ?thesis by (auto simp: Math_max_ints_def)
qed

lemma increasing_snoc:
  assumes "increasing_emissions ems"
    and "\<forall>es \<in> set ems. \<forall>a \<in> set es. \<forall>b \<in> set new. EventID a < EventID b"
  shows "increasing_emissions (ems @ [new])"
  unfolding increasing_emissions_def
proof (intro allI impI)
  fix i j assume ij: "i < j \<and> j < length (ems @ [new])"
  show "\<forall>a\<in>set ((ems @ [new]) ! i). \<forall>b\<in>set ((ems @ [new]) ! j). EventID a < EventID b"
  proof (cases "j < length ems")
    case True
    then show ?thesis using assms(1) ij by (simp add: increasing_emissions_def nth_append)
  next
    case False
    then have j: "j = length ems" using ij by simp
    then have i: "i < length ems" using ij by simp
    then have "ems ! i \<in> set ems" by simp
    then have "\<forall>a \<in> set (ems ! i). \<forall>b \<in> set new. EventID a < EventID b"
      using assms(2) by blast
    then show ?thesis using i j by (simp add: nth_append)
  qed
qed

lemma eventTick_inv:
  assumes "ids_below lc" "increasing_emissions (new_events_emitted lc)"
  shows "ids_below (eventTick lc f) \<and> increasing_emissions (new_events_emitted (eventTick lc f))"
proof (cases f)
  case None
  then show ?thesis using assms by (simp add: eventTick_def)
next
  case (Some allEvents)
  let ?new = "filter (\<lambda>e. EventID e > lastEventId lc) allEvents"
  show ?thesis
  proof (cases "?new = []")
    case True
    then show ?thesis using assms Some by (simp add: eventTick_def Let_def)
  next
    case False
    let ?m = "Math_max_ints (map EventID ?new)"
    have upd: "eventTick lc f = lc\<lparr>lastEventId := ?m, new_events_emitted := new_events_emitted lc @ [?new]\<rparr>"
      using False Some by (simp add: eventTick_def Let_def)
    have newle: "\<forall>e \<in> set ?new. EventID e \<le> ?m"
      by (intro ballI Math_max_ints_ge) simp
    obtain e0 where e0: "e0 \<in> set ?new" using False by (cases ?new) auto
    then have "lastEventId lc < EventID e0" by simp
    moreover have "EventID e0 \<le> ?m" using newle e0 by blast
    ultimately have lt: "lastEventId lc < ?m" by simp
    have 1: "ids_below (eventTick lc f)"
      unfolding upd ids_below_def using assms(1) newle lt
      by (auto simp: ids_below_def) force
    have "\<forall>es \<in> set (new_events_emitted lc). \<forall>a \<in> set es. \<forall>b \<in> set ?new. EventID a < EventID b"
      using assms(1) by (fastforce simp: ids_below_def)
    then have 2: "increasing_emissions (new_events_emitted lc @ [?new])"
      using assms(2) by (rule increasing_snoc[rotated])
    show ?thesis using 1 2 by (simp add: upd)
  qed
qed

lemma poller_step_inv:
  assumes "ids_below lc" "increasing_emissions (new_events_emitted lc)" "\<not> is_StopPolling ev"
  shows "ids_below (poller_step lc ev)
       \<and> increasing_emissions (new_events_emitted (poller_step lc ev))"
proof (cases ev)
  case StartPolling
  then show ?thesis by (simp add: startPolling_def ids_below_def increasing_emissions_def)
next
  case StopPolling
  then show ?thesis using assms(3) by simp
next
  case EventTimerFired
  then show ?thesis using assms(1,2) by (simp add: eventTimerFired_def ids_below_def)
next
  case (EventDataFetched f)
  let ?lc = "lc\<lparr>polls_in_flight := polls_in_flight lc - 1\<rparr>"
  have "ids_below ?lc" "increasing_emissions (new_events_emitted ?lc)"
    using assms(1,2) by (simp_all add: ids_below_def)
  then have "ids_below (eventTick ?lc f) \<and> increasing_emissions (new_events_emitted (eventTick ?lc f))"
    by (rule eventTick_inv)
  then show ?thesis using EventDataFetched assms(1,2) by (simp add: eventDataFetched_def)
qed

text \<open>
  As long as \<open>stopPolling\<close> is not called, every \<open>EventID\<close> of an emission is greater
  than every \<open>EventID\<close> of every earlier emission since polling was started, whatever
  the requests return, whichever of them fail and however they overlap.
\<close>

lemma event_ids_increase_while_polling:
  assumes "ids_below lc" "increasing_emissions (new_events_emitted lc)"
    "list_all (\<lambda>ev. \<not> is_StopPolling ev) evs"
  shows "ids_below (poll_events lc evs)
       \<and> increasing_emissions (new_events_emitted (poll_events lc evs))"
  using assms unfolding poll_events_def
proof (induction evs arbitrary: lc)
  case Nil then show ?case by simp
next
  case (Cons ev evs)
  have "ids_below (poller_step lc ev) \<and> increasing_emissions (new_events_emitted (poller_step lc ev))"
    using Cons.prems by (intro poller_step_inv) simp_all
  then show ?case using Cons.IH Cons.prems(3) by simp
qed

lemma example_polls_emissions:
  "new_events_emitted (poll_events new_liveClient example_polls)
     = [[example_event 0, example_event 1], [example_event 2]]"
  by (simp add: poll_events_def example_polls_def new_liveClient_def startPolling_def
      eventTimerFired_def eventDataFetched_def eventTick_def example_event_def
      Math_max_ints_def Let_def)

text \<open>
  Claim C8 (the code at the failing input). Every \<open>EventID\<close> of a \<open>new-events\<close>
  emission is to be greater than every \<open>EventID\<close> emitted before since polling
  started. Polling is started, a first request returns the events 0 and 1, which are
  emitted, and the timer fires again. While that second request is in flight
  \<open>stopPolling\<close> is called: it resets \<open>#lastEventId\<close> to \<open>-1\<close> and leaves the
  request alone. When the request returns the events 0, 1 and 2, the callback filters
  them against \<open>-1\<close> and emits all three: the events 0 and 1 are emitted a second time.
\<close>

theorem C8_stopped_poll_emits_old_ids:
  "new_events_emitted (poll_events new_liveClient stopped_in_flight)
     = [[example_event 0, example_event 1],
        [example_event 0, example_event 1, example_event 2]]
   \<and> EventID (example_event 0) = 0
   \<and> \<not> EventID (example_event 1) < EventID (example_event 0)"
  by (simp add: poll_events_def stopped_in_flight_def new_liveClient_def startPolling_def
      stopPolling_def eventTimerFired_def eventDataFetched_def eventTick_def example_event_def
      Math_max_ints_def Let_def)

section \<open>State machine: phase mapping and transition policy\<close>

lemma lcu_phase_lookup_own:
  "lcu_phase_lookup ''None'' = Some (Phase IDLE)"
  "lcu_phase_lookup ''Lobby'' = Some (Phase LOBBY)"
  "lcu_phase_lookup ''Matchmaking'' = Some (Phase LOBBY)"
  "lcu_phase_lookup ''ReadyCheck'' = Some (Phase LOBBY)"
  "lcu_phase_lookup ''ChampSelect'' = Some (Phase CHAMP_SELECT)"
  "lcu_phase_lookup ''GameStart'' = Some (Phase LOADING)"
  "lcu_phase_lookup ''InProgress'' = Some (Phase IN_GAME)"
  "lcu_phase_lookup ''WaitingForStats'' = Some (Phase POST_GAME)"
  "lcu_phase_lookup ''PreEndOfGame'' = Some (Phase POST_GAME)"
  "lcu_phase_lookup ''EndOfGame'' = Some (Phase POST_GAME)"
  by (simp_all add: lcu_phase_lookup_def LCU_PHASE_MAP_def)

lemma lcu_phase_lookup_other:
  assumes "s \<notin> set (map fst LCU_PHASE_MAP)" "s \<notin> set Object_prototype_names"
  shows "lcu_phase_lookup s = None"
proof -
  have "map_of LCU_PHASE_MAP s = None"
    using assms(1) by (simp add: map_of_eq_None_iff)
  then show ?thesis using assms(2) by (simp add: lcu_phase_lookup_def)
qed

text \<open>
  Claim C9, as the program has it. The program's table has one more entry than the claim
  lists: \<open>Lobby\<close> maps to \<open>LOBBY\<close>. With that entry the mapping is as claimed for every
  raw string that is not the name of a member of \<open>Object.prototype\<close>; an input whose
  mapped phase is the current one changes nothing and reports no transition; an input
  that forms an edge outside \<open>VALID_TRANSITIONS\<close> is logged, applied and reported.
\<close>

theorem C9_phase_mapping_and_policy:
  "(lcuPhase \<notin> set (map fst LCU_PHASE_MAP) \<and> lcuPhase \<notin> set Object_prototype_names \<longrightarrow>
        transitionFromLCU sm lcuPhase = transition sm (Phase IDLE))
   \<and> (newPhase = currentPhase sm \<longrightarrow> transition sm newPhase = Inr (False, sm))
   \<and> (currentPhase sm = Phase cur \<and> newPhase \<noteq> Phase cur
        \<and> newPhase \<notin> set (map Phase (VALID_TRANSITIONS cur)) \<longrightarrow>
        transition sm newPhase =
          Inr (True, sm\<lparr>currentPhase := newPhase,
                        transitions := transitions sm @ [(Phase cur, newPhase)],
                        invalid_logged := invalid_logged sm @ [(Phase cur, newPhase)]\<rparr>))
   \<and> transitionFromLCU sm ''None'' = transition sm (Phase IDLE)
   \<and> transitionFromLCU sm ''Lobby'' = transition sm (Phase LOBBY)
   \<and> transitionFromLCU sm ''Matchmaking'' = transition sm (Phase LOBBY)
   \<and> transitionFromLCU sm ''ReadyCheck'' = transition sm (Phase LOBBY)
   \<and> transitionFromLCU sm ''ChampSelect'' = transition sm (Phase CHAMP_SELECT)
   \<and> transitionFromLCU sm ''GameStart'' = transition sm (Phase LOADING)
   \<and> transitionFromLCU sm ''InProgress'' = transition sm (Phase IN_GAME)
   \<and> transitionFromLCU sm ''WaitingForStats'' = transition sm (Phase POST_GAME)
   \<and> transitionFromLCU sm ''PreEndOfGame'' = transition sm (Phase POST_GAME)
   \<and> transitionFromLCU sm ''EndOfGame'' = transition sm (Phase POST_GAME)"
proof -
  have own: "transitionFromLCU sm ''None'' = transition sm (Phase IDLE)"
    "transitionFromLCU sm ''Lobby'' = transition sm (Phase LOBBY)"
    "transitionFromLCU sm ''Matchmaking'' = transition sm (Phase LOBBY)"
    "transitionFromLCU sm ''ReadyCheck'' = transition sm (Phase LOBBY)"
    "transitionFromLCU sm ''ChampSelect'' = transition sm (Phase CHAMP_SELECT)"
    "transitionFromLCU sm ''GameStart'' = transition sm (Phase LOADING)"
    "transitionFromLCU sm ''InProgress'' = transition sm (Phase IN_GAME)"
    "transitionFromLCU sm ''WaitingForStats'' = transition sm (Phase POST_GAME)"
    "transitionFromLCU sm ''PreEndOfGame'' = transition sm (Phase POST_GAME)"
    "transitionFromLCU sm ''EndOfGame'' = transition sm (Phase POST_GAME)"
    by (simp_all only: transitionFromLCU_def lcu_phase_lookup_own option.case)
  have other: "lcuPhase \<notin> set (map fst LCU_PHASE_MAP) \<and> lcuPhase \<notin> set Object_prototype_names \<longrightarrow>
        transitionFromLCU sm lcuPhase = transition sm (Phase IDLE)"
    by (simp add: transitionFromLCU_def lcu_phase_lookup_other)
  have same: "newPhase = currentPhase sm \<longrightarrow> transition sm newPhase = Inr (False, sm)"
    by (simp add: transition_def)
  have forced: "currentPhase sm = Phase cur \<and> newPhase \<noteq> Phase cur
        \<and> newPhase \<notin> set (map Phase (VALID_TRANSITIONS cur)) \<longrightarrow>
        transition sm newPhase =
          Inr (True, sm\<lparr>currentPhase := newPhase,
                        transitions := transitions sm @ [(Phase cur, newPhase)],
                        invalid_logged := invalid_logged sm @ [(Phase cur, newPhase)]\<rparr>)"
    by (simp add: transition_def Let_def)
  show ?thesis using other same forced own by (intro conjI)
qed

theorem C9_phase_mapping_and_policy_witness:
  "''Riot'' \<notin> set (map fst LCU_PHASE_MAP) \<and> ''Riot'' \<notin> set Object_prototype_names
   \<and> currentPhase (new_stateMachine\<lparr>currentPhase := Phase IN_GAME\<rparr>) = Phase IN_GAME
   \<and> Phase IDLE \<noteq> Phase IN_GAME
   \<and> Phase IDLE \<notin> set (map Phase (VALID_TRANSITIONS IN_GAME))
   \<and> transitionFromLCU (new_stateMachine\<lparr>currentPhase := Phase IN_GAME\<rparr>) ''Riot''
       = Inr (True, \<lparr>currentPhase = Phase IDLE,
                     transitions = [(Phase IN_GAME, Phase IDLE)],
                     invalid_logged = [(Phase IN_GAME, Phase IDLE)]\<rparr>)
   \<and> Phase IDLE = currentPhase new_stateMachine
   \<and> transition new_stateMachine (Phase IDLE) = Inr (False, new_stateMachine)"
proof -
  let ?sm = "new_stateMachine\<lparr>currentPhase := Phase IN_GAME\<rparr>"
  note T = C9_phase_mapping_and_policy [of "''Riot''" ?sm "Phase IDLE" IN_GAME]
  note U = C9_phase_mapping_and_policy [of "''Riot''" new_stateMachine "Phase IDLE" IDLE]
  have n: "''Riot'' \<notin> set (map fst LCU_PHASE_MAP) \<and> ''Riot'' \<notin> set Object_prototype_names"
    by (simp add: Object_prototype_names_def LCU_PHASE_MAP_def)
  have c: "currentPhase ?sm = Phase IN_GAME" by simp
  have d: "Phase IDLE \<noteq> Phase IN_GAME" by simp
  have v: "Phase IDLE \<notin> set (map Phase (VALID_TRANSITIONS IN_GAME))" by simp
  have i: "Phase IDLE = currentPhase new_stateMachine" by (simp add: new_stateMachine_def)
  have 1: "transitionFromLCU ?sm ''Riot'' = transition ?sm (Phase IDLE)"
    using T [THEN conjunct1] n by (rule mp)
  have "transition ?sm (Phase IDLE) =
          Inr (True, ?sm\<lparr>currentPhase := Phase IDLE,
                         transitions := transitions ?sm @ [(Phase IN_GAME, Phase IDLE)],
                         invalid_logged := invalid_logged ?sm @ [(Phase IN_GAME, Phase IDLE)]\<rparr>)"
    using T [THEN conjunct2, THEN conjunct2, THEN conjunct1] c d v by blast
  then have 2: "transition ?sm (Phase IDLE) =
       Inr (True, \<lparr>currentPhase = Phase IDLE,
                     transitions = [(Phase IN_GAME, Phase IDLE)],
                     invalid_logged = [(Phase IN_GAME, Phase IDLE)]\<rparr>)"
    by (simp add: new_stateMachine_def)
  have 3: "transition new_stateMachine (Phase IDLE) = Inr (False, new_stateMachine)"
    using U [THEN conjunct2, THEN conjunct1] i by (rule mp)
  show ?thesis using n c d v i 1 2 3 by (simp only: simp_thms)
qed

text \<open>
  The claim as written sends every string outside its nine names to \<open>Idle\<close>.
  \<open>Lobby\<close> is outside the nine names, and from \<open>IDLE\<close> it moves the machine to
  \<open>LOBBY\<close>, where the claim's mapping would make it a same-phase no-op.
\<close>

theorem C9_lobby_counterexample:
  "''Lobby'' \<notin> set [''None'', ''Matchmaking'', ''ReadyCheck'', ''ChampSelect'', ''GameStart'',
                     ''InProgress'', ''WaitingForStats'', ''PreEndOfGame'', ''EndOfGame'']
   \<and> transitionFromLCU new_stateMachine ''Lobby''
       = Inr (True, \<lparr>currentPhase = Phase LOBBY, transitions = [(Phase IDLE, Phase LOBBY)],
                     invalid_logged = []\<rparr>)
   \<and> transitionFromLCU new_stateMachine ''Lobby'' \<noteq> transition new_stateMachine (Phase IDLE)"
proof -
  have 1: "''Lobby'' \<notin> set [''None'', ''Matchmaking'', ''ReadyCheck'', ''ChampSelect'', ''GameStart'',
                     ''InProgress'', ''WaitingForStats'', ''PreEndOfGame'', ''EndOfGame'']"
    by simp
  have 2: "transitionFromLCU new_stateMachine ''Lobby''
       = Inr (True, \<lparr>currentPhase = Phase LOBBY, transitions = [(Phase IDLE, Phase LOBBY)],
                     invalid_logged = []\<rparr>)"
    by (simp add: transitionFromLCU_def lcu_phase_lookup_own transition_def new_stateMachine_def)
  have 3: "transition new_stateMachine (Phase IDLE) = Inr (False, new_stateMachine)"
    by (simp add: transition_def new_stateMachine_def)
  show ?thesis unfolding 2 3 using 1 by simp
qed

section \<open>Trigger detector: the win condition\<close>

lemma Math_min_reals_Min: "xs \<noteq> [] \<Longrightarrow> Math_min_reals xs = Min (set xs)"
proof -
  have g: "foldl min a ys = Min (insert a (set ys))" for a :: real and ys
  proof (induction ys arbitrary: a)
    case Nil show ?case by simp
  next
    case (Cons y ys)
    have "foldl min a (y # ys) = Min (insert (min a y) (set ys))" using Cons.IH by simp
    also have "\<dots> = Min (insert a (insert y (set ys)))"
      by (cases "set ys = {}") (simp_all add: min.assoc)
    finally show ?case by simp
  qed
  assume "xs \<noteq> []"
  then obtain a ys where "xs = a # ys" by (cases xs) auto
  then show ?thesis by (simp add: Math_min_reals_def g)
qed

lemma bestLaneTurretsDown_Max:
  "bestLaneTurretsDown d tm = Max ((\<lambda>lane. turrets_down d tm lane) ` {''top'', ''mid'', ''bot''})"
  by (simp add: bestLaneTurretsDown_def Let_def max_def)

lemma round_times_0_7_round: "round_times_0_7 x = round (real_of_int x * 0.7)"
  unfolding round_def round_times_0_7_def by linarith

lemma estimatedPushTime_cong:
  "turretsDestroyed d' = turretsDestroyed d \<Longrightarrow> enemyInhibsDown d' = enemyInhibsDown d \<Longrightarrow>
   estimatedPushTime d' tm = estimatedPushTime d tm"
  by (simp add: estimatedPushTime_def bestLaneTurretsDown_def turrets_down_def)

lemma checkWinCondition_cong:
  assumes "turretsDestroyed d' = turretsDestroyed d" "enemyInhibsDown d' = enemyInhibsDown d"
  shows "checkWinCondition d' enemies j = checkWinCondition d enemies j"
  unfolding checkWinCondition_def estimatedPushTime_cong [OF assms] ..

lemma checkWinCondition_iff:
  assumes "\<forall>p \<in> set enemies. team p \<noteq> []"
  shows "(checkWinCondition d enemies j \<noteq> None) =
     (length (filter isDead enemies) \<ge> 3
      \<and> (\<exists>jg. j = Some jg \<and> isDead jg)
      \<and> Min (set (map respawnTimer (filter isDead enemies))) \<ge> 15
      \<and> real_of_int (estimatedPushTime d (team (hd enemies)))
            < Min (set (map respawnTimer (filter isDead enemies))))"
proof (cases "length (filter isDead enemies) \<ge> 3")
  case False
  then show ?thesis by (simp add: checkWinCondition_def)
next
  case True
  then have ne: "filter isDead enemies \<noteq> []" by auto
  then have "enemies \<noteq> []" by auto
  then have tm: "team (hd enemies) \<noteq> []" using assms by simp
  have m: "Math_min_reals (map respawnTimer (filter isDead enemies))
           = Min (set (map respawnTimer (filter isDead enemies)))"
    using ne by (intro Math_min_reals_Min) simp
  show ?thesis
    using True tm unfolding checkWinCondition_def Let_def m
    by (cases j) auto
qed

lemma checkWinCondition_value:
  "checkWinCondition d enemies j = Some t \<Longrightarrow>
   t = local_trigger WIN_CONDITION urgent ''WIN CONDITION ACTIVE -- PUSH TO END'' ''WIN_CONDITION''"
  by (auto simp: checkWinCondition_def Let_def split: if_splits option.splits)

lemma win_condition_triggers_cong:
  assumes "turretsDestroyed d' = turretsDestroyed d" "enemyInhibsDown d' = enemyInhibsDown d"
  shows "win_condition_triggers d' gt enemies j = win_condition_triggers d gt enemies j"
  unfolding win_condition_triggers_def checkWinCondition_cong [OF assms] ..

lemma win_condition_triggers_update [simp]:
  "win_condition_triggers (d\<lparr>playerTeamMap := m\<rparr>) = win_condition_triggers d"
  "win_condition_triggers (d\<lparr>goldHistory := h\<rparr>) = win_condition_triggers d"
  "win_condition_triggers (d\<lparr>recentAllyDeathTimes := r\<rparr>) = win_condition_triggers d"
  "win_condition_triggers (d\<lparr>localPlayerName := n\<rparr>) = win_condition_triggers d"
  "win_condition_triggers (d\<lparr>localTeam := l\<rparr>) = win_condition_triggers d"
  by (intro ext win_condition_triggers_cong; simp)+

lemma win_condition_triggers_identify [simp]:
  "win_condition_triggers (identify_local_team d snap ap) = win_condition_triggers d"
  by (simp add: identify_local_team_def Let_def split: option.split)

lemma is_win_simps [simp]:
  "is_win (local_trigger t u m ty) = (t = WIN_CONDITION)"
  "is_win (plain_trigger t u cw) = (t = WIN_CONDITION)"
  by (simp_all add: is_win_def local_trigger_def plain_trigger_def)

lemma side_lane_check_trigger:
  "side_lane_check d allies lane role msg = Some t \<Longrightarrow> trigger t = CATCH_WAVE"
  by (auto simp: side_lane_check_def local_trigger_def split: if_splits option.splits)

lemma checkSideLanePressure_trigger:
  "checkSideLanePressure d allies = Some t \<Longrightarrow> trigger t = CATCH_WAVE"
  by (auto simp: checkSideLanePressure_def split: option.splits dest: side_lane_check_trigger)

lemma section_triggers:
  "t \<in> set (throw_guard_triggers d g) \<Longrightarrow> trigger t = THROW_GUARD"
  "t \<in> set (baron_soul_triggers d b gt j) \<Longrightarrow> trigger t \<in> {BARON_WINDOW, CONTEST_SOUL, RUSH_BARON}"
  "t \<in> set (side_lane_triggers d gt allies) \<Longrightarrow> trigger t = CATCH_WAVE"
  "t \<in> set (inhib_pressure_triggers d b gt) \<Longrightarrow> trigger t = BARON_BAIT"
  "t \<in> set (ace_triggers enemies) \<Longrightarrow> trigger t = ACE"
  "t \<in> set (fst (gold_swing_triggers d g)) \<Longrightarrow> trigger t = GOLD_SWING"
  "t \<in> set (death_timer_triggers enemies) \<Longrightarrow> trigger t = DEATH_TIMER_LONG"
  "t \<in> set (fst (power_spike_triggers d ap)) \<Longrightarrow> trigger t = POWER_SPIKE"
proof -
  show "t \<in> set (throw_guard_triggers d g) \<Longrightarrow> trigger t = THROW_GUARD"
    by (auto simp: throw_guard_triggers_def local_trigger_def split: if_splits)
  show "t \<in> set (baron_soul_triggers d b gt j) \<Longrightarrow> trigger t \<in> {BARON_WINDOW, CONTEST_SOUL, RUSH_BARON}"
    by (auto simp: baron_soul_triggers_def local_trigger_def plain_trigger_def
        split: if_splits option.splits)
  show "t \<in> set (side_lane_triggers d gt allies) \<Longrightarrow> trigger t = CATCH_WAVE"
    by (cases "checkSideLanePressure d allies")
      (auto simp: side_lane_triggers_def pushed_def split: if_splits
        dest: checkSideLanePressure_trigger)
  show "t \<in> set (inhib_pressure_triggers d b gt) \<Longrightarrow> trigger t = BARON_BAIT"
    by (auto simp: inhib_pressure_triggers_def local_trigger_def split: if_splits)
  show "t \<in> set (ace_triggers enemies) \<Longrightarrow> trigger t = ACE"
    by (auto simp: ace_triggers_def plain_trigger_def split: if_splits)
  show "t \<in> set (fst (gold_swing_triggers d g)) \<Longrightarrow> trigger t = GOLD_SWING"
    by (auto simp: gold_swing_triggers_def plain_trigger_def split: if_splits)
  show "t \<in> set (death_timer_triggers enemies) \<Longrightarrow> trigger t = DEATH_TIMER_LONG"
    by (auto simp: death_timer_triggers_def plain_trigger_def Let_def split: if_splits)
  show "t \<in> set (fst (power_spike_triggers d ap)) \<Longrightarrow> trigger t = POWER_SPIKE"
    by (auto simp: power_spike_triggers_def plain_trigger_def Let_def split: if_splits)
qed

lemma filter_win_sections [simp]:
  "filter is_win (throw_guard_triggers d g) = []"
  "filter is_win (baron_soul_triggers d b gt j) = []"
  "filter is_win (side_lane_triggers d gt allies) = []"
  "filter is_win (inhib_pressure_triggers d b gt) = []"
  "filter is_win (ace_triggers enemies) = []"
  "filter is_win (fst (gold_swing_triggers d g)) = []"
  "filter is_win (death_timer_triggers enemies) = []"
  "filter is_win (fst (power_spike_triggers d ap)) = []"
  unfolding filter_empty_conv is_win_def
  by (auto dest: section_triggers)

lemma filter_win_win [simp]:
  "filter is_win (win_condition_triggers d gt enemies j) = win_condition_triggers d gt enemies j"
proof -
  have "\<forall>t \<in> set (win_condition_triggers d gt enemies j). is_win t"
    by (cases "checkWinCondition d enemies j")
      (auto simp: win_condition_triggers_def pushed_def is_win_def local_trigger_def
        split: if_splits dest!: checkWinCondition_value)
  then show ?thesis by (simp only: filter_True)
qed

lemma evaluateSnapshot_win:
  assumes "activePlayer_of snap = Some ap" "allPlayers snap \<noteq> []"
    and "localTeam (identify_local_team d snap ap) = Some lt" "lt \<noteq> []"
  shows "filter is_win (fst (evaluateSnapshot d snap)) =
         win_condition_triggers d (gameTime snap) (filter (\<lambda>p. team p \<noteq> lt) (allPlayers snap))
           (find (\<lambda>p. position p = ''JUNGLE'') (filter (\<lambda>p. team p \<noteq> lt) (allPlayers snap)))"
  using assms by (simp add: evaluateSnapshot_def Let_def team_truthy_def)

text \<open>
  Claim C6. Take a snapshot that is evaluated (it has players and an active player, the
  local team \<open>lt\<close> is known or found in it, every player has a team) with game time
  above 1500 s. A \<open>WIN_CONDITION\<close> trigger is among the triggers returned if and only
  if at least three enemies are dead, the enemy jungler (the first enemy with position
  \<open>JUNGLE\<close>) is dead, the least respawn timer among the dead enemies is at least 15 s,
  and the push time is strictly less than it; the push time is
  \<open>max(0, 5 - most enemy turrets down in a lane) * 18 + 10\<close>, multiplied by 0.7 and
  rounded when an enemy inhibitor is down. Every such trigger is local and urgent.
\<close>

theorem C6_win_condition:
  assumes "activePlayer_of snap = Some ap" and "allPlayers snap \<noteq> []"
    and "localTeam (identify_local_team d snap ap) = Some lt" and "lt \<noteq> []"
    and "\<forall>p \<in> set (allPlayers snap). team p \<noteq> []"
    and "gameTime snap > 1500"
  shows "let enemies = filter (\<lambda>p. team p \<noteq> lt) (allPlayers snap);
             dead = filter isDead enemies;
             minRespawn = Min (set (map respawnTimer dead));
             maxDown = Max ((\<lambda>lane. turrets_down d (team (hd enemies)) lane) ` {''top'', ''mid'', ''bot''});
             base = max 0 (5 - int maxDown) * 18 + 10;
             pushTime = (if enemyInhibsDown d \<noteq> {} then round (real_of_int base * 0.7) else base)
         in ((\<exists>t \<in> set (fst (evaluateSnapshot d snap)). trigger t = WIN_CONDITION) =
               (3 \<le> length dead
                \<and> (\<exists>j. find (\<lambda>p. position p = ''JUNGLE'') enemies = Some j \<and> isDead j)
                \<and> 15 \<le> minRespawn
                \<and> real_of_int pushTime < minRespawn))
          \<and> (\<forall>t \<in> set (fst (evaluateSnapshot d snap)). trigger t = WIN_CONDITION \<longrightarrow>
                urgency_of t = urgent
                \<and> localCall t = Some ''WIN CONDITION ACTIVE -- PUSH TO END''
                \<and> localCallType t = Some ''WIN_CONDITION''
                \<and> \<not> claudeWorthy t)"
proof -
  define enemies where "enemies = filter (\<lambda>p. team p \<noteq> lt) (allPlayers snap)"
  define jg where "jg = find (\<lambda>p. position p = ''JUNGLE'') enemies"
  have w: "filter is_win (fst (evaluateSnapshot d snap)) =
           win_condition_triggers d (gameTime snap) enemies jg"
    unfolding enemies_def jg_def using assms(1-4) by (rule evaluateSnapshot_win)
  have en: "\<forall>p \<in> set enemies. team p \<noteq> []"
    using assms(5) by (simp add: enemies_def)
  have ex: "(\<exists>t \<in> set (fst (evaluateSnapshot d snap)). trigger t = WIN_CONDITION)
            = (filter is_win (fst (evaluateSnapshot d snap)) \<noteq> [])"
    by (simp add: filter_empty_conv is_win_def)
  have push: "estimatedPushTime d (team (hd enemies)) =
      (if enemyInhibsDown d \<noteq> {}
       then round (real_of_int (max 0 (5 - int (Max ((\<lambda>lane. turrets_down d (team (hd enemies)) lane)
                                   ` {''top'', ''mid'', ''bot''}))) * 18 + 10) * 0.7)
       else max 0 (5 - int (Max ((\<lambda>lane. turrets_down d (team (hd enemies)) lane)
                                   ` {''top'', ''mid'', ''bot''}))) * 18 + 10)"
    unfolding estimatedPushTime_def Let_def bestLaneTurretsDown_Max round_times_0_7_round ..
  have "(win_condition_triggers d (gameTime snap) enemies jg \<noteq> [])
        = (checkWinCondition d enemies jg \<noteq> None)"
    using assms(6) by (cases "checkWinCondition d enemies jg")
      (simp_all add: win_condition_triggers_def pushed_def)
  also have "\<dots> = (length (filter isDead enemies) \<ge> 3
      \<and> (\<exists>j. jg = Some j \<and> isDead j)
      \<and> Min (set (map respawnTimer (filter isDead enemies))) \<ge> 15
      \<and> real_of_int (estimatedPushTime d (team (hd enemies)))
            < Min (set (map respawnTimer (filter isDead enemies))))"
    using en by (rule checkWinCondition_iff)
  finally have iff: "(\<exists>t \<in> set (fst (evaluateSnapshot d snap)). trigger t = WIN_CONDITION) =
      (length (filter isDead enemies) \<ge> 3
      \<and> (\<exists>j. jg = Some j \<and> isDead j)
      \<and> Min (set (map respawnTimer (filter isDead enemies))) \<ge> 15
      \<and> real_of_int (estimatedPushTime d (team (hd enemies)))
            < Min (set (map respawnTimer (filter isDead enemies))))"
    unfolding ex w .
  have shape: "urgency_of t = urgent
                \<and> localCall t = Some ''WIN CONDITION ACTIVE -- PUSH TO END''
                \<and> localCallType t = Some ''WIN_CONDITION''
                \<and> \<not> claudeWorthy t"
    if "t \<in> set (fst (evaluateSnapshot d snap))" "trigger t = WIN_CONDITION" for t
  proof -
    have "t \<in> set (filter is_win (fst (evaluateSnapshot d snap)))"
      using that by (simp add: is_win_def)
    then have "t \<in> set (win_condition_triggers d (gameTime snap) enemies jg)"
      unfolding w .
    then have "checkWinCondition d enemies jg = Some t"
      by (cases "checkWinCondition d enemies jg")
        (simp_all add: win_condition_triggers_def pushed_def split: if_splits)
    then have "t = local_trigger WIN_CONDITION urgent ''WIN CONDITION ACTIVE -- PUSH TO END''
                     ''WIN_CONDITION''"
      by (rule checkWinCondition_value)
    then show ?thesis by (simp add: local_trigger_def)
  qed
  show ?thesis
    unfolding Let_def enemies_def [symmetric] jg_def [symmetric] push [symmetric]
    using iff shape by blast
qed

lemma late_snapshot_enemies:
  "filter (\<lambda>p. team p \<noteq> ''ORDER'') (allPlayers late_snapshot) =
     [mk_player ''e1'' ''CHAOS'' ''TOP'' True 40,
      mk_player ''e2'' ''CHAOS'' ''JUNGLE'' True 50,
      mk_player ''e3'' ''CHAOS'' ''MIDDLE'' True 35,
      mk_player ''e4'' ''CHAOS'' ''BOTTOM'' False 0]"
  by (simp add: late_snapshot_def mk_player_def)

lemma mk_player_sel [simp]:
  "team (mk_player nm tm pos dead rt) = tm"
  "position (mk_player nm tm pos dead rt) = pos"
  "isDead (mk_player nm tm pos dead rt) = dead"
  "respawnTimer (mk_player nm tm pos dead rt) = rt"
  "riotId (mk_player nm tm pos dead rt) = nm"
  by (simp_all add: mk_player_def)

theorem C6_win_condition_witness:
  "activePlayer_of late_snapshot =
      Some \<lparr>ap_riotId = ''me'', ap_summonerName = [], ap_championName = ''me'', ap_level = 15\<rparr>
   \<and> allPlayers late_snapshot \<noteq> []
   \<and> localTeam (identify_local_team late_detector late_snapshot
        \<lparr>ap_riotId = ''me'', ap_summonerName = [], ap_championName = ''me'', ap_level = 15\<rparr>)
       = Some ''ORDER''
   \<and> ''ORDER'' \<noteq> []
   \<and> map team (allPlayers late_snapshot) = [''ORDER'', ''CHAOS'', ''CHAOS'', ''CHAOS'', ''CHAOS'']
   \<and> gameTime late_snapshot > 1500
   \<and> WIN_CONDITION \<in> trigger ` set (fst (evaluateSnapshot late_detector late_snapshot))"
proof -
  let ?ap = "\<lparr>ap_riotId = ''me'', ap_summonerName = [], ap_championName = ''me'', ap_level = 15\<rparr>"
  have h1: "activePlayer_of late_snapshot = Some ?ap" by (simp add: late_snapshot_def)
  have h2: "allPlayers late_snapshot \<noteq> []" by (simp add: late_snapshot_def)
  have h3: "localTeam (identify_local_team late_detector late_snapshot ?ap) = Some ''ORDER''"
    by (simp add: identify_local_team_def late_detector_def reset_detector_def team_truthy_def
        late_snapshot_def or_str_def player_key_def Let_def)
  have h4: "''ORDER'' \<noteq> []" by simp
  have h5: "\<forall>p \<in> set (allPlayers late_snapshot). team p \<noteq> []" by (simp add: late_snapshot_def)
  have h6: "gameTime late_snapshot > 1500" by (simp add: late_snapshot_def)
  have t: "turrets_down late_detector ''CHAOS'' ''top'' = 0"
    "turrets_down late_detector ''CHAOS'' ''mid'' = 3"
    "turrets_down late_detector ''CHAOS'' ''bot'' = 0"
    by (simp_all add: turrets_down_def late_detector_def)
  have i: "enemyInhibsDown late_detector \<noteq> {}" by (simp add: late_detector_def)
  have h5': "map team (allPlayers late_snapshot) = [''ORDER'', ''CHAOS'', ''CHAOS'', ''CHAOS'', ''CHAOS'']"
    by (simp add: late_snapshot_def)
  have "\<exists>t \<in> set (fst (evaluateSnapshot late_detector late_snapshot)). trigger t = WIN_CONDITION"
    using C6_win_condition [OF h1 h2 h3 h4 h5 h6]
    unfolding Let_def late_snapshot_enemies
    by (simp add: t i round_def)
  then have "WIN_CONDITION \<in> trigger ` set (fst (evaluateSnapshot late_detector late_snapshot))"
    by force
  then show ?thesis using h1 h2 h3 h4 h5' h6 by (intro conjI)
qed

section \<open>Macro Strategist: the advice cooldown\<close>

lemma emitLocalCall_dispatch:
  "dispatch_log (emitLocalCall s t now) = dispatch_log s @ [(now, LocalDispatch t)]"
  "lastAdviceTime (emitLocalCall s t now) = now"
  by (simp_all add: emitLocalCall_def Let_def)

lemma maybeInvokeClaude_dispatch:
  "(dispatch_log (maybeInvokeClaude s ts now) = dispatch_log s
      \<and> lastAdviceTime (maybeInvokeClaude s ts now) = lastAdviceTime s
      \<and> overlay_sent (maybeInvokeClaude s ts now) = overlay_sent s)
   \<or> (dispatch_log (maybeInvokeClaude s ts now) = dispatch_log s @ [(now, ClaudeDispatch ts)]
      \<and> lastAdviceTime (maybeInvokeClaude s ts now) = now)"
  by (simp add: maybeInvokeClaude_def)

lemma dispatch_top_dispatch:
  assumes "now - lastAdviceTime s \<ge> MIN_ADVICE_INTERVAL"
  shows "one_dispatch_at now s (dispatch_top s ts now)"
proof -
  let ?top = "hd (sort_key priorityOrder ts)"
  consider (l) "str_truthy (localCall ?top)"
    | (c) "\<not> str_truthy (localCall ?top)" "claudeWorthy ?top"
    | (n) "\<not> str_truthy (localCall ?top)" "\<not> claudeWorthy ?top" by blast
  then show ?thesis
  proof cases
    case l
    then show ?thesis using assms
      by (simp add: dispatch_top_def Let_def one_dispatch_at_def emitLocalCall_dispatch)
  next
    case c
    then show ?thesis using assms
        maybeInvokeClaude_dispatch [of s "filter claudeWorthy (sort_key priorityOrder ts)" now]
      by (auto simp: dispatch_top_def Let_def one_dispatch_at_def)
  next
    case n
    then show ?thesis by (simp add: dispatch_top_def Let_def one_dispatch_at_def)
  qed
qed

lemma one_dispatch_at_fields:
  assumes "dispatch_log s1 = dispatch_log s" "lastAdviceTime s1 = lastAdviceTime s"
    "overlay_sent s1 = overlay_sent s" "one_dispatch_at now s1 s'"
  shows "one_dispatch_at now s s'"
  using assms by (simp add: one_dispatch_at_def)

lemma one_dispatch_at_same:
  "dispatch_log s' = dispatch_log s \<Longrightarrow> lastAdviceTime s' = lastAdviceTime s \<Longrightarrow>
   overlay_sent s' = overlay_sent s \<Longrightarrow> one_dispatch_at now s s'"
  by (simp add: one_dispatch_at_def)

lemma handleSnapshot_dispatch: "one_dispatch_at now s (handleSnapshot s snap now)"
proof -
  let ?s1 = "s\<lparr>latestSnapshot := Some snap\<rparr>"
  let ?ev = "evaluateSnapshot (triggerDetector ?s1) snap"
  let ?s2 = "?s1\<lparr>triggerDetector := snd ?ev\<rparr>"
  show ?thesis
  proof (cases "allPlayers snap = [] \<or> activePlayer_of snap = None")
    case True
    then have "handleSnapshot s snap now = ?s1" by (simp add: handleSnapshot_def Let_def)
    then show ?thesis by (simp add: one_dispatch_at_same)
  next
    case v: False
    show ?thesis
    proof (cases "length (fst ?ev) = 0 \<or> now - lastAdviceTime ?s2 < MIN_ADVICE_INTERVAL")
      case True
      then have "handleSnapshot s snap now = ?s2"
        using v by (auto simp: handleSnapshot_def Let_def)
      then show ?thesis by (simp add: one_dispatch_at_same)
    next
      case False
      then have h: "handleSnapshot s snap now = dispatch_top ?s2 (fst ?ev) now"
        using v by (auto simp: handleSnapshot_def Let_def)
      have "now - lastAdviceTime ?s2 \<ge> MIN_ADVICE_INTERVAL" using False by simp
      then have "one_dispatch_at now ?s2 (dispatch_top ?s2 (fst ?ev) now)"
        by (rule dispatch_top_dispatch)
      then show ?thesis unfolding h by (rule one_dispatch_at_fields[rotated 3]) simp_all
    qed
  qed
qed

lemma handleNewEvents_dispatch: "one_dispatch_at now s (handleNewEvents s events now)"
proof -
  let ?s1 = "s\<lparr>recentEvents := keep_last_30 (recentEvents s @ events)\<rparr>"
  let ?ev = "evaluateEvents (triggerDetector ?s1) events"
  let ?s2 = "?s1\<lparr>triggerDetector := snd ?ev\<rparr>"
  let ?cw = "filter claudeWorthy (fst ?ev)"
  show ?thesis
  proof (cases "length (fst ?ev) = 0 \<or> now - lastAdviceTime ?s2 < MIN_ADVICE_INTERVAL
                \<or> \<not> length ?cw > 0")
    case True
    then have "handleNewEvents s events now = ?s2"
      by (auto simp: handleNewEvents_def Let_def)
    then show ?thesis by (simp add: one_dispatch_at_same)
  next
    case False
    then have h: "handleNewEvents s events now = maybeInvokeClaude ?s2 ?cw now"
      by (auto simp: handleNewEvents_def Let_def)
    have g: "now - lastAdviceTime ?s2 \<ge> MIN_ADVICE_INTERVAL" using False by simp
    have "one_dispatch_at now ?s2 (maybeInvokeClaude ?s2 ?cw now)"
      using maybeInvokeClaude_dispatch [of ?s2 ?cw now] g
      by (auto simp: one_dispatch_at_def)
    then show ?thesis unfolding h by (rule one_dispatch_at_fields[rotated 3]) simp_all
  qed
qed


lemma cooldown_inv_dispatch:
  assumes "cooldown_inv s" "one_dispatch_at now s s'"
  shows "cooldown_inv s'"
proof -
  from assms(2) consider
      (same) "dispatch_log s' = dispatch_log s" "lastAdviceTime s' = lastAdviceTime s"
    | (new) k where "dispatch_log s' = dispatch_log s @ [(now, k)]" "lastAdviceTime s' = now"
        "now - lastAdviceTime s \<ge> MIN_ADVICE_INTERVAL"
    unfolding one_dispatch_at_def by blast
  then show ?thesis
  proof cases
    case same
    then show ?thesis using assms(1) by (simp add: cooldown_inv_def)
  next
    case new
    have le: "\<forall>t \<in> set (map fst (dispatch_log s)). t \<le> lastAdviceTime s"
      using assms(1) by (simp add: cooldown_inv_def)
    then have far: "\<forall>t \<in> set (map fst (dispatch_log s)). now - t \<ge> MIN_ADVICE_INTERVAL"
      using new(3) by fastforce
    have pos: "0 \<le> MIN_ADVICE_INTERVAL" by (simp add: MIN_ADVICE_INTERVAL_def)
    have "sorted_wrt (\<lambda>a b. b - a \<ge> MIN_ADVICE_INTERVAL) (map fst (dispatch_log s) @ [now])"
      using assms(1) far by (simp add: cooldown_inv_def sorted_wrt_append)
    moreover have "\<forall>t \<in> set (map fst (dispatch_log s) @ [now]). t \<le> now"
      using far pos by fastforce
    ultimately show ?thesis using new(1,2) by (simp add: cooldown_inv_def)
  qed
qed

lemma cooldown_inv_step: "cooldown_inv s \<Longrightarrow> cooldown_inv (strategist_step s i)"
proof (cases i)
  case (Snapshot snap now)
  assume "cooldown_inv s"
  then show ?thesis unfolding Snapshot strategist_step.simps
    using handleSnapshot_dispatch by (rule cooldown_inv_dispatch)
next
  case (NewEvents events now)
  assume "cooldown_inv s"
  then show ?thesis unfolding NewEvents strategist_step.simps
    using handleNewEvents_dispatch by (rule cooldown_inv_dispatch)
next
  case InvokeSettled
  assume "cooldown_inv s"
  then show ?thesis using InvokeSettled by (simp add: cooldown_inv_def invoke_settled_def)
next
  case (EmitMacroCall ty urg message w now)
  assume "cooldown_inv s"
  then show ?thesis using EmitMacroCall
    by (simp add: cooldown_inv_def handleEmitMacroCall_def Let_def)
qed

lemma cooldown_inv_foldl: "cooldown_inv s \<Longrightarrow> cooldown_inv (foldl strategist_step s inputs)"
  by (induction inputs arbitrary: s) (simp_all add: cooldown_inv_step)

lemma cooldown_inv_run: "cooldown_inv (strategist_run inputs)"
  unfolding strategist_run_def
  by (rule cooldown_inv_foldl) (simp add: cooldown_inv_def activated_strategist_def)

lemma dropped_in_cooldown:
  assumes "cooldown_inv s" "dispatch_log s \<noteq> []"
    "now - fst (last (dispatch_log s)) < MIN_ADVICE_INTERVAL"
    "one_dispatch_at now s s'"
  shows "dispatch_log s' = dispatch_log s \<and> overlay_sent s' = overlay_sent s"
proof -
  have "lastAdviceTime s = fst (last (dispatch_log s))"
    using assms(1,2) by (simp add: cooldown_inv_def)
  then have "\<not> now - lastAdviceTime s \<ge> MIN_ADVICE_INTERVAL" using assms(3) by simp
  then show ?thesis using assms(4) by (auto simp: one_dispatch_at_def)
qed

text \<open>
  Claim C1. A dispatch is a local call sent to the overlay by \<open>#emitLocalCall\<close> or an
  invocation of Claude started by \<open>#maybeInvokeClaude\<close>; its time is the clock value
  written to \<open>lastAdviceTime\<close>. After activation, whatever snapshots, event batches,
  ends of invocations and tool calls arrive and in whatever order: any two dispatches are
  at least 60000 ms apart; and a snapshot or an event batch arriving less than 60000 ms
  after the last dispatch dispatches nothing and sends nothing to the overlay, whatever
  triggers its evaluation produces. (A message that Claude sends with the tool
  \<open>emit_macro_call\<close> while an invocation runs is the output of that dispatch, not a
  dispatch: \<open>handleEmitMacroCall\<close> does not consult the cooldown.)
\<close>

theorem C1_advice_cooldown:
  "(\<forall>i j. i < j \<and> j < length (dispatch_log (strategist_run inputs)) \<longrightarrow>
       fst (dispatch_log (strategist_run inputs) ! j)
         - fst (dispatch_log (strategist_run inputs) ! i) \<ge> 60000)
   \<and> (dispatch_log (strategist_run inputs) \<noteq> []
        \<and> now - fst (last (dispatch_log (strategist_run inputs))) < 60000 \<longrightarrow>
        dispatch_log (handleSnapshot (strategist_run inputs) snap now)
          = dispatch_log (strategist_run inputs)
        \<and> overlay_sent (handleSnapshot (strategist_run inputs) snap now)
          = overlay_sent (strategist_run inputs)
        \<and> dispatch_log (handleNewEvents (strategist_run inputs) events now)
          = dispatch_log (strategist_run inputs)
        \<and> overlay_sent (handleNewEvents (strategist_run inputs) events now)
          = overlay_sent (strategist_run inputs))"
proof (intro conjI allI impI)
  let ?s = "strategist_run inputs"
  have inv: "cooldown_inv ?s" by (rule cooldown_inv_run)
  fix i j assume ij: "i < j \<and> j < length (dispatch_log ?s)"
  have "sorted_wrt (\<lambda>a b. b - a \<ge> MIN_ADVICE_INTERVAL) (map fst (dispatch_log ?s))"
    using inv by (simp add: cooldown_inv_def)
  then have "map fst (dispatch_log ?s) ! j - map fst (dispatch_log ?s) ! i \<ge> MIN_ADVICE_INTERVAL"
    using ij by (simp add: sorted_wrt_iff_nth_less)
  then show "fst (dispatch_log ?s ! j) - fst (dispatch_log ?s ! i) \<ge> 60000"
    using ij by (simp add: MIN_ADVICE_INTERVAL_def)
next
  let ?s = "strategist_run inputs"
  assume a: "dispatch_log ?s \<noteq> [] \<and> now - fst (last (dispatch_log ?s)) < 60000"
  have inv: "cooldown_inv ?s" by (rule cooldown_inv_run)
  have lt: "now - fst (last (dispatch_log ?s)) < MIN_ADVICE_INTERVAL"
    using a by (simp add: MIN_ADVICE_INTERVAL_def)
  have 1: "dispatch_log (handleSnapshot ?s snap now) = dispatch_log ?s
        \<and> overlay_sent (handleSnapshot ?s snap now) = overlay_sent ?s"
    using inv a lt handleSnapshot_dispatch by (intro dropped_in_cooldown) simp_all
  have 2: "dispatch_log (handleNewEvents ?s events now) = dispatch_log ?s
        \<and> overlay_sent (handleNewEvents ?s events now) = overlay_sent ?s"
    using inv a lt handleNewEvents_dispatch by (intro dropped_in_cooldown) simp_all
  show "dispatch_log (handleSnapshot ?s snap now) = dispatch_log ?s"
    "overlay_sent (handleSnapshot ?s snap now) = overlay_sent ?s"
    "dispatch_log (handleNewEvents ?s events now) = dispatch_log ?s"
    "overlay_sent (handleNewEvents ?s events now) = overlay_sent ?s"
    using 1 2 by simp_all
qed


lemma evaluateEvents_single:
  "(EventName e, EventID e) \<notin> seenEventIds d \<Longrightarrow>
   evaluateEvents d [e] = handle_event (d\<lparr>seenEventIds := insert (EventName e, EventID e) (seenEventIds d)\<rparr>) e"
  by (simp add: evaluateEvents_def Let_def split: prod.split)

lemma cooldown_inputs_log:
  "dispatch_log (strategist_run cooldown_inputs) =
     [(100000, ClaudeDispatch [plain_trigger OBJECTIVE_TAKEN urgent True]),
      (170000, ClaudeDispatch [plain_trigger OBJECTIVE_TAKEN info True])]"
  by (simp add: strategist_run_def cooldown_inputs_def activated_strategist_def
      handleSnapshot_def handleNewEvents_def empty_snapshot_def Let_def keep_last_30_def
      evaluateEvents_single reset_detector_def objective_event_def handle_event_def
      MIN_ADVICE_INTERVAL_def maybeInvokeClaude_def invoke_settled_def plain_trigger_def)

theorem C1_advice_cooldown_witness:
  "(0::nat) < 1 \<and> 1 < length (dispatch_log (strategist_run cooldown_inputs))
   \<and> fst (dispatch_log (strategist_run cooldown_inputs) ! 1)
        - fst (dispatch_log (strategist_run cooldown_inputs) ! 0) \<ge> 60000
   \<and> dispatch_log (strategist_run cooldown_inputs) \<noteq> []
   \<and> 190000 - fst (last (dispatch_log (strategist_run cooldown_inputs))) < 60000
   \<and> dispatch_log (handleNewEvents (strategist_run cooldown_inputs)
                      [objective_event 3 ''DragonKill''] 190000)
        = dispatch_log (strategist_run cooldown_inputs)"
proof -
  note T = C1_advice_cooldown [of cooldown_inputs 190000 empty_snapshot
      "[objective_event 3 ''DragonKill'']"]
  have a: "(0::nat) < 1 \<and> 1 < length (dispatch_log (strategist_run cooldown_inputs))"
    by (simp add: cooldown_inputs_log)
  have b: "dispatch_log (strategist_run cooldown_inputs) \<noteq> []
      \<and> 190000 - fst (last (dispatch_log (strategist_run cooldown_inputs))) < 60000"
    by (simp add: cooldown_inputs_log)
  have 1: "fst (dispatch_log (strategist_run cooldown_inputs) ! 1)
        - fst (dispatch_log (strategist_run cooldown_inputs) ! 0) \<ge> 60000"
    using T [THEN conjunct1, rule_format, of 0 1] a by blast
  have 2: "dispatch_log (handleNewEvents (strategist_run cooldown_inputs)
                      [objective_event 3 ''DragonKill''] 190000)
        = dispatch_log (strategist_run cooldown_inputs)"
    using T [THEN conjunct2] b by blast
  show ?thesis using a b 1 2 by blast
qed

section \<open>Serial queue: arrival order, one task at a time\<close>

lemma in_order_fields:
  assumes "dispatched q' = dispatched q" "queue q' = queue q" "arrivals q' = arrivals q"
    "rejected q' = rejected q"
  shows "in_order q' = in_order q"
  by (simp add: in_order_def assms)

lemma in_order_exit [simp]: "in_order (exit_drain q) = in_order q"
  by (rule in_order_fields) (simp_all add: exit_drain_def)

lemma in_order_shift:
  assumes "in_order q" "queue q \<noteq> []"
    "dispatched q' = dispatched q @ [hd (queue q)]" "queue q' = tl (queue q)"
    "arrivals q' = arrivals q" "rejected q' = rejected q"
  shows "in_order q'"
proof -
  obtain t rest where e: "queue q = t # rest" using assms(2) by (cases "queue q") auto
  have "dispatched q' @ queue q' = dispatched q @ queue q"
    by (simp add: assms(3,4) e)
  moreover have "set (dispatched q') \<union> set (queue q') = set (dispatched q) \<union> set (queue q)"
    by (auto simp: assms(3,4) e)
  ultimately show ?thesis using assms(1) unfolding in_order_def assms(5,6)
    by (simp add: Un_assoc)
qed

lemma in_order_iteration_rest: "in_order q \<Longrightarrow> in_order (iteration_rest q now)"
proof -
  assume a: "in_order q"
  let ?q1 = "pruneWindow q now"
  let ?q2 = "?q1\<lparr>paused := True, pauseUntil := now + PAUSE_DURATION_MS\<rparr>"
  have 1: "in_order ?q1" using a by (simp add: in_order_def pruneWindow_def)
  have 2: "in_order ?q2" using 1 by (simp add: in_order_def)
  consider (hard) "paused q \<and> pauseUntil q = 0"
    | (thr) "\<not> (paused q \<and> pauseUntil q = 0)" "length (windowTimestamps ?q1) \<ge> THROTTLE_COUNT"
    | (crash) "\<not> (paused q \<and> pauseUntil q = 0)" "\<not> length (windowTimestamps ?q1) \<ge> THROTTLE_COUNT"
        "queue ?q1 = []"
    | (go) "\<not> (paused q \<and> pauseUntil q = 0)" "\<not> length (windowTimestamps ?q1) \<ge> THROTTLE_COUNT"
        "queue ?q1 \<noteq> []"
    by blast
  then show ?thesis
  proof cases
    case hard
    then show ?thesis using a by (simp add: iteration_rest_def)
  next
    case thr
    have "in_order (?q2\<lparr>drain_at := ThrottleSleeping\<rparr>)" using 2 by (simp add: in_order_def)
    then show ?thesis using thr 2 a by (simp add: iteration_rest_def Let_def)
  next
    case crash
    have "in_order (?q1\<lparr>drain_at := Crashed\<rparr>)" using 1 by (simp add: in_order_def)
    then show ?thesis using crash a by (simp add: iteration_rest_def Let_def)
  next
    case go
    let ?q3 = "?q1\<lparr>queue := tl (queue ?q1),
                    windowTimestamps := windowTimestamps ?q1 @ [now],
                    dispatched := dispatched ?q1 @ [hd (queue ?q1)],
                    drain_at := Awaiting (hd (queue ?q1))\<rparr>"
    have "in_order ?q3" using 1 go(3) by (rule in_order_shift) simp_all
    then show ?thesis using go a by (simp add: iteration_rest_def Let_def)
  qed
qed

lemma in_order_drain_loop: "in_order q \<Longrightarrow> in_order (drain_loop q now)"
proof -
  assume a: "in_order q"
  have 1: "in_order (q\<lparr>drain_at := ThrottleSleeping\<rparr>)" using a by (simp add: in_order_def)
  have "in_order (q\<lparr>paused := False, pauseUntil := 0\<rparr>)" using a by (simp add: in_order_def)
  then have 2: "in_order (iteration_rest (q\<lparr>paused := False, pauseUntil := 0\<rparr>) now)"
    by (rule in_order_iteration_rest)
  have 3: "in_order (iteration_rest q now)" using a by (rule in_order_iteration_rest)
  show ?thesis unfolding drain_loop_def using a 1 2 3 by simp
qed

lemma in_order_enqueue: "in_order q \<Longrightarrow> in_order (enqueue q now)"
proof -
  assume a: "in_order q"
  let ?q1 = "q\<lparr>queue := queue q @ [arrivals q], arrivals := Suc (arrivals q)\<rparr>"
  have lt: "\<forall>x \<in> set (dispatched q @ queue q). x < arrivals q" using a by (simp add: in_order_def)
  have "sorted_wrt (<) (dispatched q @ queue q)" using a by (simp add: in_order_def)
  then have "sorted_wrt (<) ((dispatched q @ queue q) @ [arrivals q])"
    using lt by (subst sorted_wrt_append) simp
  then have s: "sorted_wrt (<) (dispatched ?q1 @ queue ?q1)" by simp
  have b: "\<forall>x \<in> set (dispatched ?q1 @ queue ?q1). x < arrivals ?q1"
    using lt by (auto simp: less_Suc_eq)
  have c: "\<forall>n < arrivals ?q1. n \<in> set (dispatched ?q1) \<union> set (queue ?q1) \<union> set (rejected ?q1)"
    using a by (auto simp: in_order_def less_Suc_eq)
  have 1: "in_order ?q1" unfolding in_order_def using s b c by blast
  then have "in_order (?q1\<lparr>running := True\<rparr>)" by (simp add: in_order_def)
  then have 2: "in_order (drain ?q1 now)" using 1 by (simp add: drain_def in_order_drain_loop)
  have 3: "in_order (q\<lparr>arrivals := Suc (arrivals q), rejected := rejected q @ [arrivals q]\<rparr>)"
    using a by (auto simp: in_order_def less_Suc_eq)
  show ?thesis unfolding enqueue_def using 2 3 by simp
qed

lemma in_order_task_settled: "in_order q \<Longrightarrow> in_order (task_settled q ok now)"
proof (cases "drain_at q")
  case (Awaiting t)
  assume "in_order q"
  then have "in_order (q\<lparr>settled := settled q @ [(t, ok)]\<rparr>)" by (simp add: in_order_def)
  then show ?thesis using Awaiting by (simp add: task_settled_def in_order_drain_loop)
qed (simp_all add: task_settled_def)

lemma in_order_sleep_over: "in_order q \<Longrightarrow> in_order (sleep_over q now)"
proof -
  assume a: "in_order q"
  then have "in_order (q\<lparr>paused := False, pauseUntil := 0\<rparr>)" by (simp add: in_order_def)
  then have "in_order (iteration_rest (q\<lparr>paused := False, pauseUntil := 0\<rparr>) now)"
    by (rule in_order_iteration_rest)
  then show ?thesis using a by (simp add: sleep_over_def)
qed

lemma in_order_pause: "in_order q \<Longrightarrow> in_order (pause q)"
  unfolding in_order_def pause_def by (auto simp: sorted_wrt_append)

lemma in_order_resume: "in_order q \<Longrightarrow> in_order (resume q)"
  by (simp add: in_order_def resume_def)

lemma in_order_step: "in_order q \<Longrightarrow> in_order (bq_step q ev)"
  by (cases ev) (simp_all add: in_order_enqueue in_order_task_settled in_order_sleep_over
      in_order_pause in_order_resume)

lemma in_order_run: "in_order (bq_run evs)"
proof -
  have "in_order q \<Longrightarrow> in_order (foldl bq_step q evs)" for q
    by (induction evs arbitrary: q) (simp_all add: in_order_step)
  moreover have "in_order new_bqueue" by (simp add: in_order_def new_bqueue_def)
  ultimately show ?thesis by (simp add: bq_run_def)
qed


lemma one_in_flight_iteration_rest:
  assumes "all_settled q" "running q"
  shows "one_in_flight (iteration_rest q now)"
proof -
  let ?q1 = "pruneWindow q now"
  have d: "dispatched ?q1 = map fst (settled ?q1)" "running ?q1"
    using assms by (simp_all add: all_settled_def pruneWindow_def)
  consider (hard) "paused q \<and> pauseUntil q = 0"
    | (thr) "\<not> (paused q \<and> pauseUntil q = 0)" "length (windowTimestamps ?q1) \<ge> THROTTLE_COUNT"
    | (crash) "\<not> (paused q \<and> pauseUntil q = 0)" "\<not> length (windowTimestamps ?q1) \<ge> THROTTLE_COUNT"
        "queue ?q1 = []"
    | (go) "\<not> (paused q \<and> pauseUntil q = 0)" "\<not> length (windowTimestamps ?q1) \<ge> THROTTLE_COUNT"
        "queue ?q1 \<noteq> []"
    by blast
  then show ?thesis
  proof cases
    case hard
    then show ?thesis using assms
      by (simp add: iteration_rest_def one_in_flight_def exit_drain_def all_settled_def)
  next
    case thr
    then show ?thesis using d assms
      by (auto simp: iteration_rest_def Let_def one_in_flight_def exit_drain_def all_settled_def)
  next
    case crash
    then show ?thesis using d assms
      by (auto simp: iteration_rest_def Let_def one_in_flight_def all_settled_def exit_drain_def)
  next
    case go
    then show ?thesis using d assms
      by (auto simp: iteration_rest_def Let_def one_in_flight_def all_settled_def exit_drain_def)
  qed
qed

lemma one_in_flight_drain_loop:
  assumes "all_settled q" "running q"
  shows "one_in_flight (drain_loop q now)"
proof -
  have 1: "one_in_flight (exit_drain q)"
    using assms by (simp add: one_in_flight_def exit_drain_def all_settled_def)
  have 2: "one_in_flight (q\<lparr>drain_at := ThrottleSleeping\<rparr>)"
    using assms by (simp add: one_in_flight_def all_settled_def)
  have "all_settled (q\<lparr>paused := False, pauseUntil := 0\<rparr>)" "running (q\<lparr>paused := False, pauseUntil := 0\<rparr>)"
    using assms by (simp_all add: all_settled_def)
  then have 3: "one_in_flight (iteration_rest (q\<lparr>paused := False, pauseUntil := 0\<rparr>) now)"
    by (rule one_in_flight_iteration_rest)
  have 4: "one_in_flight (iteration_rest q now)"
    using assms by (rule one_in_flight_iteration_rest)
  show ?thesis unfolding drain_loop_def using 1 2 3 4 by simp
qed

lemma one_in_flight_idle:
  "one_in_flight q \<Longrightarrow> \<not> running q \<Longrightarrow> all_settled q"
  by (simp add: one_in_flight_def all_settled_def)

lemma one_in_flight_enqueue: "one_in_flight q \<Longrightarrow> one_in_flight (enqueue q now)"
proof -
  assume a: "one_in_flight q"
  let ?q1 = "q\<lparr>queue := queue q @ [arrivals q], arrivals := Suc (arrivals q)\<rparr>"
  have 1: "one_in_flight ?q1" using a by (simp add: one_in_flight_def)
  have 2: "one_in_flight (drain ?q1 now)"
  proof (cases "running q")
    case True
    then show ?thesis using 1 by (simp add: drain_def)
  next
    case False
    then have "all_settled q" using a by (simp add: one_in_flight_idle)
    then have "all_settled (?q1\<lparr>running := True\<rparr>)" "running (?q1\<lparr>running := True\<rparr>)"
      by (simp_all add: all_settled_def)
    then have "one_in_flight (drain_loop (?q1\<lparr>running := True\<rparr>) now)"
      by (rule one_in_flight_drain_loop)
    then show ?thesis using False by (simp add: drain_def)
  qed
  have 3: "one_in_flight (q\<lparr>arrivals := Suc (arrivals q), rejected := rejected q @ [arrivals q]\<rparr>)"
    using a by (simp add: one_in_flight_def)
  show ?thesis unfolding enqueue_def using 2 3 by simp
qed

lemma one_in_flight_task_settled: "one_in_flight q \<Longrightarrow> one_in_flight (task_settled q ok now)"
proof (cases "drain_at q")
  case (Awaiting t)
  assume a: "one_in_flight q"
  let ?q1 = "q\<lparr>settled := settled q @ [(t, ok)]\<rparr>"
  have "all_settled ?q1" "running ?q1"
    using a Awaiting by (simp_all add: one_in_flight_def all_settled_def)
  then have "one_in_flight (drain_loop ?q1 now)" by (rule one_in_flight_drain_loop)
  then show ?thesis using Awaiting by (simp add: task_settled_def)
qed (simp_all add: task_settled_def)

lemma one_in_flight_sleep_over: "one_in_flight q \<Longrightarrow> one_in_flight (sleep_over q now)"
proof (cases "drain_at q = ThrottleSleeping")
  case True
  assume a: "one_in_flight q"
  let ?q1 = "q\<lparr>paused := False, pauseUntil := 0\<rparr>"
  have "all_settled ?q1" "running ?q1"
    using a True by (simp_all add: one_in_flight_def all_settled_def)
  then have "one_in_flight (iteration_rest ?q1 now)" by (rule one_in_flight_iteration_rest)
  then show ?thesis using True by (simp add: sleep_over_def)
qed (simp add: sleep_over_def)

lemma one_in_flight_step: "one_in_flight q \<Longrightarrow> one_in_flight (bq_step q ev)"
proof (cases ev)
  case Pause
  assume "one_in_flight q"
  then show ?thesis using Pause by (simp add: one_in_flight_def pause_def)
next
  case Resume
  assume "one_in_flight q"
  then show ?thesis using Resume by (simp add: one_in_flight_def resume_def)
qed (simp_all add: one_in_flight_enqueue one_in_flight_task_settled one_in_flight_sleep_over)

lemma one_in_flight_run: "one_in_flight (bq_run evs)"
proof -
  have "one_in_flight q \<Longrightarrow> one_in_flight (foldl bq_step q evs)" for q
    by (induction evs arbitrary: q) (simp_all add: one_in_flight_step)
  moreover have "one_in_flight new_bqueue" by (simp add: one_in_flight_def new_bqueue_def)
  ultimately show ?thesis by (simp add: bq_run_def)
qed

lemma one_in_flight_counts:
  assumes "one_in_flight q"
  shows "map fst (settled q) = take (length (settled q)) (dispatched q)"
    and "length (dispatched q) \<le> Suc (length (settled q))"
  using assms by (cases "drain_at q"; simp add: one_in_flight_def)+

text \<open>
  Claim C5. Tasks are named by their arrival number, so \<open>a < b\<close> says that \<open>a\<close> was
  enqueued before \<open>b\<close>. Whatever happens to the queue and in whatever order (arrivals,
  results of the running task, ends of the throttle sleep, \<open>pause()\<close>, \<open>resume()\<close>):
  the tasks are dispatched in strictly increasing arrival order; when \<open>b\<close> has been
  dispatched, every task that arrived before it has been dispatched too (before \<open>b\<close>,
  by the first part) or was rejected by the queue because the key had expired; and the
  tasks run one at a time: every dispatched task except possibly the last one has settled,
  in the order of dispatch.
\<close>

theorem C5_scheduler_fifo:
  "(\<forall>i j. i < j \<and> j < length (dispatched (bq_run evs)) \<longrightarrow>
        dispatched (bq_run evs) ! i < dispatched (bq_run evs) ! j)
   \<and> (\<forall>a b. a < b \<and> b \<in> set (dispatched (bq_run evs)) \<longrightarrow>
        a \<in> set (dispatched (bq_run evs)) \<or> a \<in> set (rejected (bq_run evs)))
   \<and> map fst (settled (bq_run evs)) = take (length (settled (bq_run evs))) (dispatched (bq_run evs))
   \<and> length (dispatched (bq_run evs)) \<le> Suc (length (settled (bq_run evs)))"
proof -
  let ?q = "bq_run evs"
  have io: "in_order ?q" by (rule in_order_run)
  have s: "sorted_wrt (<) (dispatched ?q)" "\<forall>x \<in> set (dispatched ?q). \<forall>y \<in> set (queue ?q). x < y"
    using io by (simp_all add: in_order_def sorted_wrt_append)
  have 1: "\<forall>i j. i < j \<and> j < length (dispatched ?q) \<longrightarrow> dispatched ?q ! i < dispatched ?q ! j"
    using s(1) by (simp add: sorted_wrt_iff_nth_less)
  have 2: "a \<in> set (dispatched ?q) \<or> a \<in> set (rejected ?q)"
    if "a < b \<and> b \<in> set (dispatched ?q)" for a b
  proof -
    have "b < arrivals ?q" using io that by (simp add: in_order_def)
    then have "a < arrivals ?q" using that by simp
    then have "a \<in> set (dispatched ?q) \<union> set (queue ?q) \<union> set (rejected ?q)"
      using io by (simp add: in_order_def)
    moreover have "a \<notin> set (queue ?q)" using s(2) that by force
    ultimately show ?thesis by blast
  qed
  have 3: "map fst (settled ?q) = take (length (settled ?q)) (dispatched ?q)"
    "length (dispatched ?q) \<le> Suc (length (settled ?q))"
    using one_in_flight_run by (rule one_in_flight_counts)+
  show ?thesis using 1 2 3 by blast
qed

lemma fifo_events_run:
  "dispatched (bq_run fifo_events) = [0, 1, 2]"
  "settled (bq_run fifo_events) = [(0, True), (1, False)]"
  "rejected (bq_run fifo_events) = []"
  by (simp_all add: bq_run_def fifo_events_def new_bqueue_def enqueue_def drain_def
      drain_loop_def iteration_rest_def pruneWindow_def task_settled_def Let_def
      THROTTLE_COUNT_def WINDOW_MS_def exit_drain_def)

theorem C5_scheduler_fifo_witness:
  "(0::nat) < 2 \<and> 2 < length (dispatched (bq_run fifo_events))
   \<and> dispatched (bq_run fifo_events) ! 0 < dispatched (bq_run fifo_events) ! 2
   \<and> (1::nat) < 2 \<and> 2 \<in> set (dispatched (bq_run fifo_events))
   \<and> 1 \<in> set (dispatched (bq_run fifo_events))
   \<and> length (dispatched (bq_run fifo_events)) = Suc (length (settled (bq_run fifo_events)))"
proof -
  note T = C5_scheduler_fifo [of fifo_events]
  have a: "(0::nat) < 2 \<and> 2 < length (dispatched (bq_run fifo_events))"
    by (simp add: fifo_events_run)
  have b: "(1::nat) < 2 \<and> 2 \<in> set (dispatched (bq_run fifo_events))"
    by (simp add: fifo_events_run)
  have 1: "dispatched (bq_run fifo_events) ! 0 < dispatched (bq_run fifo_events) ! 2"
    using T [THEN conjunct1, rule_format, of 0 2] a by blast
  have "1 \<in> set (dispatched (bq_run fifo_events)) \<or> 1 \<in> set (rejected (bq_run fifo_events))"
    using T [THEN conjunct2, THEN conjunct1, rule_format, of 1 2] b by blast
  then have 2: "1 \<in> set (dispatched (bq_run fifo_events))" by (simp add: fifo_events_run)
  have 3: "length (dispatched (bq_run fifo_events)) = Suc (length (settled (bq_run fifo_events)))"
    by (simp add: fifo_events_run)
  show ?thesis using a b 1 2 3 by blast
qed

section \<open>Rate limiter: an update discards the recorded requests\<close>

lemma parseBuckets_no_timestamps: "list_all no_timestamps (parseBuckets h)"
  by (simp add: parseBuckets_def Bucket_def no_timestamps_def list_all_iff Let_def)

lemma update_no_timestamps: "list_all no_timestamps (buckets (update rl h))"
  by (simp add: update_def parseBuckets_no_timestamps)

lemma empty_bucket_admits:
  assumes "no_timestamps b" "positive_capacity b"
  shows "canRequest b now = (True, b)" "waitTime b now = (Num 0, b)"
proof -
  have p: "prune b now = b" using assms(1) by (simp add: prune_def no_timestamps_def)
  have l: "js_lt (Num (int (length (timestamps b)))) (max_b b)"
    using assms by (simp add: no_timestamps_def positive_capacity_def)
  show "canRequest b now = (True, b)" using l by (simp add: canRequest_def Let_def p)
  show "waitTime b now = (Num 0, b)" using l by (simp add: waitTime_def Let_def p)
qed

lemma every_canRequest_empty:
  "list_all no_timestamps bs \<Longrightarrow> list_all positive_capacity bs \<Longrightarrow>
   every_canRequest bs now = (True, bs)"
  by (induction bs) (simp_all add: empty_bucket_admits)

lemma foldl_js_max_zero: "list_all (\<lambda>x. x = Num 0) xs \<Longrightarrow> foldl js_max (Num 0) xs = Num 0"
  by (induction xs) simp_all

lemma waitTimes_empty:
  "list_all no_timestamps bs \<Longrightarrow> list_all positive_capacity bs \<Longrightarrow>
   list_all (\<lambda>x. x = Num 0) (map fst (map (\<lambda>b. waitTime b now) bs))"
  by (induction bs) (simp_all add: empty_bucket_admits)

lemma fresh_limiter_admits:
  assumes "list_all no_timestamps (buckets rl)" "list_all positive_capacity (buckets rl)"
  shows "fst (rl_canRequest rl now)" "fst (rl_waitTime rl now) = Num 0"
proof -
  show "fst (rl_canRequest rl now)"
    using assms by (simp add: rl_canRequest_def every_canRequest_empty)
  have "foldl js_max (Num 0) (map fst (map (\<lambda>b. waitTime b now) (buckets rl))) = Num 0"
    using assms by (intro foldl_js_max_zero waitTimes_empty)
  then show "fst (rl_waitTime rl now) = Num 0"
    by (simp add: rl_waitTime_def Let_def Math_max0_def)
qed

text \<open>
  Claim C10, as the program has it. \<open>update\<close> replaces the buckets by freshly parsed
  ones, so after any update, whatever was consumed before, no bucket holds a timestamp.
  When every parsed capacity is a positive number, \<open>canRequest\<close> is then true and
  \<open>waitTime\<close> is 0. The client applies \<open>update\<close> at the end of every response that
  carries a non-empty \<open>x-app-rate-limit\<close> header, whatever its status, so after such a
  response the limiter holds no timestamp.
\<close>

theorem C10_update_discards_timestamps:
  "list_all no_timestamps (buckets (update rl h))
   \<and> (list_all positive_capacity (parseBuckets h) \<longrightarrow>
         fst (rl_canRequest (update rl h) now) \<and> fst (rl_waitTime (update rl h) now) = Num 0)
   \<and> (request_at c = AwaitResponse a \<and> h \<noteq> [] \<longrightarrow>
         list_all no_timestamps
           (buckets (appLimiter (request_ended c (Response status (Some h) retryAfter)))))"
proof (intro conjI impI)
  show "list_all no_timestamps (buckets (update rl h))" by (rule update_no_timestamps)
next
  assume p: "list_all positive_capacity (parseBuckets h)"
  have "list_all positive_capacity (buckets (update rl h))" using p by (simp add: update_def)
  then show "fst (rl_canRequest (update rl h) now)" "fst (rl_waitTime (update rl h) now) = Num 0"
    using update_no_timestamps by (rule fresh_limiter_admits[rotated])+
next
  assume a: "request_at c = AwaitResponse a \<and> h \<noteq> []"
  have "appLimiter (on_response c a (Response status (Some h) retryAfter))
        = update (appLimiter c) h"
    using a by (simp add: str_truthy_def Let_def)
  then show "list_all no_timestamps
           (buckets (appLimiter (request_ended c (Response status (Some h) retryAfter))))"
    using a by (simp add: request_ended_def update_no_timestamps)
qed

lemma used_limiter_buckets:
  "buckets used_limiter = [\<lparr>max_b = Num 1, windowMs = Num 1000, timestamps = [1000, 1001]\<rparr>]"
  by (simp add: used_limiter_def rl_consume_def RateLimiter_def parseBuckets_def Bucket_def
      consume_def Number_js_def num_at_def is_digit_def dec_value_def digit_val_def)

lemma parse_one_per_second:
  "parseBuckets ''1:1'' = [\<lparr>max_b = Num 1, windowMs = Num 1000, timestamps = []\<rparr>]"
  by (simp add: parseBuckets_def Bucket_def Number_js_def num_at_def is_digit_def dec_value_def
      digit_val_def)

theorem C10_update_discards_timestamps_witness:
  "fst (rl_canRequest used_limiter 1002) = False
   \<and> list_all positive_capacity (parseBuckets ''1:1'')
   \<and> fst (rl_canRequest (update used_limiter ''1:1'') 1002)
   \<and> fst (rl_waitTime (update used_limiter ''1:1'') 1002) = Num 0"
proof -
  have b: "fst (rl_canRequest used_limiter 1002) = False"
    by (simp add: rl_canRequest_def used_limiter_buckets canRequest_def prune_def Let_def)
  have p: "list_all positive_capacity (parseBuckets ''1:1'')"
    by (simp add: parse_one_per_second positive_capacity_def)
  show ?thesis
    using b p C10_update_discards_timestamps [of used_limiter "''1:1''" 1002, THEN conjunct2, THEN conjunct1]
    by blast
qed

text \<open>
  The claim as written promises \<open>canRequest() = true\<close> and \<open>waitTime() = 0\<close> after
  any update. After an update with the header \<open>0:1\<close> the bucket is empty, and
  \<open>canRequest\<close> is false and \<open>waitTime\<close> is \<open>NaN\<close>.
\<close>

theorem C10_zero_capacity_counterexample:
  "list_all no_timestamps (buckets (update used_limiter ''0:1''))
   \<and> fst (rl_canRequest (update used_limiter ''0:1'') 1002) = False
   \<and> fst (rl_waitTime (update used_limiter ''0:1'') 1002) = NaN"
  by (simp add: update_def parseBuckets_def Bucket_def Number_js_def num_at_def is_digit_def
      dec_value_def digit_val_def no_timestamps_def rl_canRequest_def canRequest_def prune_def
      rl_waitTime_def waitTime_def Math_max0_def Let_def)

section \<open>The Riot API client\<close>

text \<open>The steps taken before a request is sent touch neither the queue nor the signals.\<close>

lemma fire_fields [simp]:
  "requestQueue (fire c t a now) = requestQueue c"
  "keyExpired (fire c t a now) = keyExpired c"
  "emitted (fire c t a now) = emitted c"
  "outcomes (fire c t a now) = outcomes c"
  "expired_rejections (fire c t a now) = expired_rejections c"
  "sleeps (fire c t a now) = sleeps c"
  by (simp_all add: fire_def Let_def)

lemma check_bucket_fields [simp]:
  "requestQueue (check_bucket c t a now) = requestQueue c"
  "keyExpired (check_bucket c t a now) = keyExpired c"
  "emitted (check_bucket c t a now) = emitted c"
  "outcomes (check_bucket c t a now) = outcomes c"
  "expired_rejections (check_bucket c t a now) = expired_rejections c"
  by (simp_all add: check_bucket_def Let_def)

lemma check_spacing_fields [simp]:
  "requestQueue (check_spacing c t a now) = requestQueue c"
  "keyExpired (check_spacing c t a now) = keyExpired c"
  "emitted (check_spacing c t a now) = emitted c"
  "outcomes (check_spacing c t a now) = outcomes c"
  "expired_rejections (check_spacing c t a now) = expired_rejections c"
  by (simp_all add: check_spacing_def Let_def)

lemma requestWithRetry_fields [simp]:
  "requestQueue (requestWithRetry c t a now) = requestQueue c"
  "keyExpired (requestWithRetry c t a now) = keyExpired c"
  "emitted (requestWithRetry c t a now) = emitted c"
  "outcomes (requestWithRetry c t a now) = outcomes c"
  "expired_rejections (requestWithRetry c t a now) = expired_rejections c"
  by (simp_all add: requestWithRetry_def Let_def)

lemma start_dispatched_fields [simp]:
  "requestQueue (start_dispatched c now) = requestQueue c"
  "keyExpired (start_dispatched c now) = keyExpired c"
  "emitted (start_dispatched c now) = emitted c"
  "outcomes (start_dispatched c now) = outcomes c"
  "expired_rejections (start_dispatched c now) = expired_rejections c"
  by (simp_all add: start_dispatched_def)

subsection \<open>A response with status 429\<close>

text \<open>
  When the retry-after value is truthy and fewer than \<open>MAX_RETRIES\<close> retries have been
  made, the client sleeps that long and sends the same request again; a missing or empty
  header counts as one second. After \<open>MAX_RETRIES\<close> retries the rate-limited signal is
  emitted and the request fails.
\<close>

lemma retry_on_429:
  assumes "request_at c = AwaitResponse a" "js_truthy (retryAfterMs retryAfter)" "a < MAX_RETRIES"
  shows "request_at (request_ended c (Response 429 appLimit retryAfter)) = RetrySleep (Suc a)"
    and "sleeps (request_ended c (Response 429 appLimit retryAfter)) = sleeps c @ [retryAfterMs retryAfter]"
    and "emitted (request_ended c (Response 429 appLimit retryAfter)) = emitted c"
    and "http_requests (request_ended c (Response 429 appLimit retryAfter)) = http_requests c"
    and "requestQueue (request_ended c (Response 429 appLimit retryAfter)) = requestQueue c"
  using assms by (simp_all add: request_ended_def Let_def)

lemma retry_after_default: "retryAfterMs None = Num 1000" "retryAfterMs (Some []) = Num 1000"
  by (simp_all add: retryAfterMs_def str_truthy_def parseInt10_def is_space_def is_digit_def
      dec_value_def digit_val_def Let_def)

lemma retry_sleep_over:
  assumes "drain_at (requestQueue c) = Awaiting t" "request_at c = RetrySleep a"
  shows "timer_fired c now = requestWithRetry c t a now"
  using assms by (simp add: timer_fired_def)

lemma give_up_on_429:
  assumes "request_at c = AwaitResponse a" "\<not> a < MAX_RETRIES"
  shows "request_at (request_ended c (Response 429 appLimit retryAfter))
           = Settling (RateLimited429 (retryAfterMs retryAfter))"
    and "emitted (request_ended c (Response 429 appLimit retryAfter))
           = emitted c @ [rate_limited (retryAfterMs retryAfter)]"
    and "sleeps (request_ended c (Response 429 appLimit retryAfter)) = sleeps c"
  using assms by (simp_all add: request_ended_def Let_def)

lemma retried_three_times:
  "http_requests (foldl client_step (new_client (Some ''RGAPI-key''))
      [Submit 1000, RequestEnded (Response 429 None (Some ''2'')),
       TimerFired 3000, RequestEnded (Response 429 None (Some ''2'')),
       TimerFired 5000, RequestEnded (Response 429 None (Some ''2'')),
       TimerFired 7000, RequestEnded (Response 429 None (Some ''2'')), ResultPassed 7001])
     = [(0, 0), (0, 1), (0, 2), (0, 3)]"
  "sleeps (foldl client_step (new_client (Some ''RGAPI-key''))
      [Submit 1000, RequestEnded (Response 429 None (Some ''2'')),
       TimerFired 3000, RequestEnded (Response 429 None (Some ''2'')),
       TimerFired 5000, RequestEnded (Response 429 None (Some ''2'')),
       TimerFired 7000, RequestEnded (Response 429 None (Some ''2'')), ResultPassed 7001])
     = [Num 2000, Num 2000, Num 2000]"
  "emitted (foldl client_step (new_client (Some ''RGAPI-key''))
      [Submit 1000, RequestEnded (Response 429 None (Some ''2'')),
       TimerFired 3000, RequestEnded (Response 429 None (Some ''2'')),
       TimerFired 5000, RequestEnded (Response 429 None (Some ''2'')),
       TimerFired 7000, RequestEnded (Response 429 None (Some ''2'')), ResultPassed 7001])
     = [rate_limited (Num 2000)]"
  by code_simp+

text \<open>
  Claim C4 (the code at the failing input). A 429 response is to be answered by sleeping
  the retry-after time and sending the request again, and the rate-limited signal is to
  be emitted only after the retries are used up. With the header \<open>Retry-After: 0\<close> the
  value \<open>err.retryAfterMs\<close> is \<open>0\<close>, which the test
  \<open>err.retryAfterMs && attempt < MAX_RETRIES\<close> takes for false: after the first
  request the client does not sleep and does not retry, it emits the rate-limited signal
  and the request fails. One request is sent in all.
\<close>

theorem C4_retry_after_zero_is_not_retried:
  "http_requests (foldl client_step (new_client (Some ''RGAPI-key''))
      [Submit 1000, RequestEnded (Response 429 None (Some ''0'')), ResultPassed 1001])
     = [(0, 0)]
   \<and> sleeps (foldl client_step (new_client (Some ''RGAPI-key''))
      [Submit 1000, RequestEnded (Response 429 None (Some ''0'')), ResultPassed 1001])
     = []
   \<and> emitted (foldl client_step (new_client (Some ''RGAPI-key''))
      [Submit 1000, RequestEnded (Response 429 None (Some ''0'')), ResultPassed 1001])
     = [rate_limited (Num 0)]
   \<and> outcomes (foldl client_step (new_client (Some ''RGAPI-key''))
      [Submit 1000, RequestEnded (Response 429 None (Some ''0'')), ResultPassed 1001])
     = [(0, RateLimited429 (Num 0))]"
  by code_simp


subsection \<open>A response with status 403\<close>

text \<open>The loop of the queue neither rejects nor admits a task.\<close>

lemma iteration_rest_fields [simp]:
  "rejected (iteration_rest q now) = rejected q"
  "arrivals (iteration_rest q now) = arrivals q"
  by (simp_all add: iteration_rest_def Let_def exit_drain_def pruneWindow_def)

lemma drain_loop_fields [simp]:
  "rejected (drain_loop q now) = rejected q"
  "arrivals (drain_loop q now) = arrivals q"
  by (simp_all add: drain_loop_def exit_drain_def)

lemma drain_fields [simp]:
  "rejected (drain q now) = rejected q"
  "arrivals (drain q now) = arrivals q"
  by (simp_all add: drain_def)

lemma enqueue_accepts:
  assumes "\<not> (paused q \<and> pauseUntil q = 0)"
  shows "rejected (enqueue q now) = rejected q" "arrivals (enqueue q now) = Suc (arrivals q)"
  using assms by (simp_all add: enqueue_def)

lemma enqueue_idle_dispatches:
  assumes "\<not> paused q" "\<not> running q" "queue q = []" "window_usage q now < THROTTLE_COUNT"
  shows "dispatched (enqueue q now) = dispatched q @ [arrivals q]"
  using assms
  by (simp add: enqueue_def drain_def drain_loop_def iteration_rest_def pruneWindow_def
      window_usage_def Let_def)

lemma forbidden_step:
  assumes "\<not> keyExpired c" "request_at c = AwaitResponse a"
  shows "request_ended c (Response 403 appLimit retryAfter) =
     (if str_truthy appLimit then c\<lparr>appLimiter := update (appLimiter c) (the appLimit)\<rparr> else c)
       \<lparr>keyExpired := True, requestQueue := pause (requestQueue c),
        emitted := emitted c @ [key_expired], request_at := Settling Forbidden403\<rparr>"
  using assms by (simp add: request_ended_def Let_def)

lemma forbidden_expired_state:
  assumes "\<not> keyExpired c" "request_at c = AwaitResponse a"
    "awaited (drain_at (requestQueue c)) \<noteq> None"
  shows "expired_state (emitted c @ [key_expired]) (http_requests c)
           (request_ended c (Response 403 appLimit retryAfter))"
    and "expired_rejections (request_ended c (Response 403 appLimit retryAfter)) = expired_rejections c"
    and "arrivals (requestQueue (request_ended c (Response 403 appLimit retryAfter)))
           = arrivals (requestQueue c)"
    and "rejected (requestQueue (request_ended c (Response 403 appLimit retryAfter)))
           = rejected (requestQueue c) @ queue (requestQueue c)"
  unfolding forbidden_step [OF assms(1,2)]
  using assms(3) by (simp_all add: expired_state_def pause_def)

lemma expired_step:
  assumes "expired_state sig reqs c" "no_reload ev"
  shows "expired_state sig reqs (client_step c ev)"
    and "expired_rejections (client_step c ev) = expired_rejections c @ submit_times [ev]"
    and "arrivals (requestQueue (client_step c ev)) = arrivals (requestQueue c)"
    and "is_result_passed ev \<or> idle c \<Longrightarrow> idle (client_step c ev)"
proof -
  have k: "keyExpired c" "queue (requestQueue c) = []"
    "drain_at (requestQueue c) \<noteq> ThrottleSleeping"
    using assms(1) by (auto simp: expired_state_def idle_def)
  have pos: "(awaited (drain_at (requestQueue c)) \<noteq> None \<and> request_at c = Settling Forbidden403)
             \<or> idle c"
    using assms(1) by (simp add: expired_state_def)
  have all: "expired_state sig reqs (client_step c ev)
      \<and> expired_rejections (client_step c ev) = expired_rejections c @ submit_times [ev]
      \<and> arrivals (requestQueue (client_step c ev)) = arrivals (requestQueue c)
      \<and> (is_result_passed ev \<or> idle c \<longrightarrow> idle (client_step c ev))"
  proof (cases ev)
    case (Submit now)
    have "client_step c ev = c\<lparr>expired_rejections := expired_rejections c @ [now]\<rparr>"
      using k Submit by (simp add: submit_def)
    then show ?thesis using assms(1) Submit by (simp add: expired_state_def idle_def)
  next
    case (TimerFired now)
    have "client_step c ev = c"
      using pos k TimerFired by (auto simp: timer_fired_def idle_def Let_def)
    then show ?thesis using assms(1) TimerFired by simp
  next
    case (RequestEnded r)
    have "client_step c ev = c"
      using pos RequestEnded by (auto simp: request_ended_def idle_def)
    then show ?thesis using assms(1) RequestEnded by simp
  next
    case (ResultPassed now)
    show ?thesis
    proof (cases "idle c")
      case True
      then have "client_step c ev = c" using ResultPassed by (simp add: pass_result_def idle_def)
      then show ?thesis using assms(1) True ResultPassed by simp
    next
      case False
      then have s: "awaited (drain_at (requestQueue c)) \<noteq> None" "request_at c = Settling Forbidden403"
        using pos by auto
      then obtain t where t: "drain_at (requestQueue c) = Awaiting t"
        by (cases "drain_at (requestQueue c)") auto
      have q: "task_settled (requestQueue c) False now
               = exit_drain ((requestQueue c)\<lparr>settled := settled (requestQueue c) @ [(t, False)]\<rparr>)"
        using t k by (simp add: task_settled_def drain_loop_def)
      have "client_step c ev =
            c\<lparr>outcomes := outcomes c @ [(t, Forbidden403)], request_at := NoTask,
              requestQueue := exit_drain ((requestQueue c)\<lparr>settled := settled (requestQueue c) @ [(t, False)]\<rparr>)\<rparr>"
        using s t ResultPassed q
        by (simp add: pass_result_def start_dispatched_def exit_drain_def)
      then show ?thesis using assms(1) ResultPassed
        by (simp add: expired_state_def idle_def exit_drain_def)
    qed
  next
    case (ReloadKey key)
    then have "client_step c ev = c\<lparr>apiKey := key\<rparr>"
      using assms(2) by (simp add: reloadKey_def Let_def)
    then show ?thesis using assms(1) ReloadKey by (simp add: expired_state_def idle_def)
  qed
  show "expired_state sig reqs (client_step c ev)"
    "expired_rejections (client_step c ev) = expired_rejections c @ submit_times [ev]"
    "arrivals (requestQueue (client_step c ev)) = arrivals (requestQueue c)"
    "is_result_passed ev \<or> idle c \<Longrightarrow> idle (client_step c ev)"
    using all by blast+
qed

lemma submit_times_Cons: "submit_times (ev # evs) = submit_times [ev] @ submit_times evs"
  by (cases ev) simp_all

lemma expired_run:
  assumes "expired_state sig reqs c" "list_all no_reload evs"
  shows "expired_state sig reqs (foldl client_step c evs)
      \<and> expired_rejections (foldl client_step c evs) = expired_rejections c @ submit_times evs
      \<and> arrivals (requestQueue (foldl client_step c evs)) = arrivals (requestQueue c)
      \<and> (list_ex is_result_passed evs \<or> idle c \<longrightarrow> idle (foldl client_step c evs))"
  using assms
proof (induction evs arbitrary: c)
  case Nil
  then show ?case by simp
next
  case (Cons ev evs)
  have n: "no_reload ev" "list_all no_reload evs" using Cons.prems(2) by simp_all
  note st = expired_step [OF Cons.prems(1) n(1)]
  note ih = Cons.IH [OF st(1) n(2)]
  have i: "list_ex is_result_passed (ev # evs) \<or> idle c \<longrightarrow>
        idle (foldl client_step (client_step c ev) evs)"
    using st(4) ih by auto
  have r: "expired_rejections (foldl client_step (client_step c ev) evs)
        = expired_rejections c @ submit_times (ev # evs)"
    using ih st(2) submit_times_Cons [of ev evs] by simp
  have a: "arrivals (requestQueue (foldl client_step (client_step c ev) evs))
        = arrivals (requestQueue c)"
    using ih st(3) by simp
  have e: "expired_state sig reqs (foldl client_step (client_step c ev) evs)"
    using ih by simp
  show ?case unfolding foldl_Cons using e r a i by blast
qed

lemma reload_and_submit:
  assumes "expired_state sig reqs c" "str_truthy key"
  shows "\<not> keyExpired (reloadKey c key)" "\<not> paused (requestQueue (reloadKey c key))"
    and "expired_rejections (submit (reloadKey c key) now) = expired_rejections (reloadKey c key)"
    and "rejected (requestQueue (submit (reloadKey c key) now))
           = rejected (requestQueue (reloadKey c key))"
    and "arrivals (requestQueue (submit (reloadKey c key) now))
           = Suc (arrivals (requestQueue (reloadKey c key)))"
    and "idle c \<Longrightarrow> window_usage (requestQueue (reloadKey c key)) now < THROTTLE_COUNT \<Longrightarrow>
         dispatched (requestQueue (submit (reloadKey c key) now))
           = dispatched (requestQueue (reloadKey c key)) @ [arrivals (requestQueue (reloadKey c key))]"
proof -
  let ?c3 = "reloadKey c key"
  have r: "?c3 = c\<lparr>apiKey := key, keyExpired := False, requestQueue := resume (requestQueue c)\<rparr>"
    using assms(2) by (simp add: reloadKey_def Let_def)
  have f: "\<not> keyExpired ?c3" "\<not> paused (requestQueue ?c3)"
    "queue (requestQueue ?c3) = []"
    using assms(1) by (simp_all add: r resume_def expired_state_def)
  show "\<not> keyExpired ?c3" "\<not> paused (requestQueue ?c3)" using f by simp_all
  have s: "submit ?c3 now = start_dispatched (?c3\<lparr>requestQueue := enqueue (requestQueue ?c3) now\<rparr>) now"
    using f(1) by (simp add: submit_def)
  show "expired_rejections (submit ?c3 now) = expired_rejections ?c3"
    unfolding s by simp
  show "rejected (requestQueue (submit ?c3 now)) = rejected (requestQueue ?c3)"
    unfolding s using f(2) by (simp add: enqueue_accepts)
  show "arrivals (requestQueue (submit ?c3 now)) = Suc (arrivals (requestQueue ?c3))"
    unfolding s using f(2) by (simp add: enqueue_accepts)
  show "dispatched (requestQueue (submit ?c3 now))
           = dispatched (requestQueue ?c3) @ [arrivals (requestQueue ?c3)]"
    if "idle c" "window_usage (requestQueue ?c3) now < THROTTLE_COUNT"
  proof -
    have "\<not> running (requestQueue ?c3)" using that(1) by (simp add: r resume_def idle_def)
    then show ?thesis unfolding s using f that(2) by (simp add: enqueue_idle_dispatches)
  qed
qed

text \<open>
  Claim C2. A request that is in flight with a fresh key is answered by status 403
  (state \<open>c1\<close>); then any events other than an effective key reload happen (state
  \<open>c2\<close>); then a non-empty key is reloaded (state \<open>c3\<close>) and a request is submitted
  (state \<open>c4\<close>).
  At the 403 the client marks the key expired, every queued task is rejected and the queue
  is empty, and the key-expired signal is emitted once. Until the reload the key stays
  expired, no further signal is emitted, no HTTP request is sent, every submitted request
  is rejected at once and none enters the queue. The reload clears the expiry and the
  pause of the queue; the request submitted after it is admitted to the queue, and it is
  dispatched at once when the failed request has been passed on and the sliding window
  of the queue has room.
\<close>

theorem C2_credential_expiry_is_sticky:
  assumes "\<not> keyExpired c" and "request_at c = AwaitResponse a"
    and "awaited (drain_at (requestQueue c)) \<noteq> None"
    and "list_all no_reload evs" and "str_truthy key"
  shows "let c1 = request_ended c (Response 403 appLimit retryAfter);
             c2 = foldl client_step c1 evs;
             c3 = reloadKey c2 key;
             c4 = submit c3 now
         in (rejected (requestQueue c1) = rejected (requestQueue c) @ queue (requestQueue c)
             \<and> queue (requestQueue c1) = []
             \<and> emitted c1 = emitted c @ [key_expired])
          \<and> (keyExpired c2
             \<and> emitted c2 = emitted c1
             \<and> http_requests c2 = http_requests c
             \<and> expired_rejections c2 = expired_rejections c @ submit_times evs
             \<and> arrivals (requestQueue c2) = arrivals (requestQueue c))
          \<and> (\<not> keyExpired c3 \<and> \<not> paused (requestQueue c3)
             \<and> expired_rejections c4 = expired_rejections c3
             \<and> rejected (requestQueue c4) = rejected (requestQueue c3)
             \<and> arrivals (requestQueue c4) = Suc (arrivals (requestQueue c3))
             \<and> (list_ex is_result_passed evs \<and> window_usage (requestQueue c3) now < THROTTLE_COUNT
                  \<longrightarrow> dispatched (requestQueue c4)
                        = dispatched (requestQueue c3) @ [arrivals (requestQueue c3)]))"
proof -
  let ?c1 = "request_ended c (Response 403 appLimit retryAfter)"
  let ?c2 = "foldl client_step ?c1 evs"
  note one = forbidden_expired_state [OF assms(1-3), of appLimit retryAfter]
  note run = expired_run [OF one(1) assms(4)]
  have e1: "emitted ?c1 = emitted c @ [key_expired]" "queue (requestQueue ?c1) = []"
    using one(1) by (simp_all add: expired_state_def)
  have A: "rejected (requestQueue ?c1) = rejected (requestQueue c) @ queue (requestQueue c)
             \<and> queue (requestQueue ?c1) = []
             \<and> emitted ?c1 = emitted c @ [key_expired]"
    using one(4) e1 by simp
  have st: "expired_state (emitted c @ [key_expired]) (http_requests c) ?c2" using run by simp
  have B: "keyExpired ?c2
             \<and> emitted ?c2 = emitted ?c1
             \<and> http_requests ?c2 = http_requests c
             \<and> expired_rejections ?c2 = expired_rejections c @ submit_times evs
             \<and> arrivals (requestQueue ?c2) = arrivals (requestQueue c)"
    using st run one(2,3) e1(1) by (simp add: expired_state_def)
  have i: "list_ex is_result_passed evs \<longrightarrow> idle ?c2" using run by simp
  note rs = reload_and_submit [OF st assms(5)]
  have C: "\<not> keyExpired (reloadKey ?c2 key) \<and> \<not> paused (requestQueue (reloadKey ?c2 key))
             \<and> expired_rejections (submit (reloadKey ?c2 key) now) = expired_rejections (reloadKey ?c2 key)
             \<and> rejected (requestQueue (submit (reloadKey ?c2 key) now))
                 = rejected (requestQueue (reloadKey ?c2 key))
             \<and> arrivals (requestQueue (submit (reloadKey ?c2 key) now))
                 = Suc (arrivals (requestQueue (reloadKey ?c2 key)))
             \<and> (list_ex is_result_passed evs
                  \<and> window_usage (requestQueue (reloadKey ?c2 key)) now < THROTTLE_COUNT
                  \<longrightarrow> dispatched (requestQueue (submit (reloadKey ?c2 key) now))
                        = dispatched (requestQueue (reloadKey ?c2 key))
                          @ [arrivals (requestQueue (reloadKey ?c2 key))])"
    using rs(1-5) rs(6) i by blast
  show ?thesis unfolding Let_def using A B C by blast
qed


text \<open>
  The theorem at the example: of three requests submitted at once the first meets the 403
  and the other two are rejected; two more submitted while the key is expired are
  rejected; the one submitted after the reload is dispatched.
\<close>

theorem C2_credential_expiry_is_sticky_witness:
  "\<not> keyExpired three_submitted
   \<and> request_at three_submitted = AwaitResponse 0
   \<and> awaited (drain_at (requestQueue three_submitted)) \<noteq> None
   \<and> list_all no_reload while_expired
   \<and> str_truthy (Some ''RGAPI-new'')
   \<and> rejected (requestQueue (request_ended three_submitted (Response 403 None None))) = [1, 2]
   \<and> emitted (request_ended three_submitted (Response 403 None None)) = [key_expired]
   \<and> keyExpired (foldl client_step (request_ended three_submitted (Response 403 None None))
         while_expired)
   \<and> emitted (foldl client_step (request_ended three_submitted (Response 403 None None))
         while_expired) = [key_expired]
   \<and> http_requests (foldl client_step (request_ended three_submitted (Response 403 None None))
         while_expired) = [(0, 0)]
   \<and> expired_rejections (foldl client_step (request_ended three_submitted (Response 403 None None))
         while_expired) = [1100, 1300]
   \<and> \<not> keyExpired (reloadKey (foldl client_step
         (request_ended three_submitted (Response 403 None None)) while_expired)
         (Some ''RGAPI-new''))
   \<and> dispatched (requestQueue (submit (reloadKey (foldl client_step
         (request_ended three_submitted (Response 403 None None)) while_expired)
         (Some ''RGAPI-new'')) 5000)) = [0, 3]"
proof -
  have h1: "\<not> keyExpired three_submitted" by code_simp
  have h2: "request_at three_submitted = AwaitResponse 0" by code_simp
  have h3: "awaited (drain_at (requestQueue three_submitted)) \<noteq> None" by code_simp
  have h4: "list_all no_reload while_expired" by code_simp
  have h5: "str_truthy (Some ''RGAPI-new'')" by code_simp
  have b: "rejected (requestQueue three_submitted) = []"
    "queue (requestQueue three_submitted) = [1, 2]"
    "emitted three_submitted = []"
    "expired_rejections three_submitted = []"
    "http_requests three_submitted = [(0, 0)]"
    "submit_times while_expired = [1100, 1300]"
    by code_simp+
  have d: "list_ex is_result_passed while_expired"
    "window_usage (requestQueue (reloadKey (foldl client_step
         (request_ended three_submitted (Response 403 None None)) while_expired)
         (Some ''RGAPI-new''))) 5000 < THROTTLE_COUNT"
    "dispatched (requestQueue (reloadKey (foldl client_step
         (request_ended three_submitted (Response 403 None None)) while_expired)
         (Some ''RGAPI-new''))) = [0]"
    "arrivals (requestQueue (reloadKey (foldl client_step
         (request_ended three_submitted (Response 403 None None)) while_expired)
         (Some ''RGAPI-new''))) = 3"
    by code_simp+
  note t = C2_credential_expiry_is_sticky [of three_submitted 0 while_expired
      "Some ''RGAPI-new''" None None 5000, unfolded Let_def, OF h1 h2 h3 h4 h5]
  show ?thesis using t h1 h2 h3 h4 h5 b d by simp
qed


section \<open>The handover between agents\<close>

text \<open>
  No \<open>onDeactivate\<close> of the three agents contains an \<open>await\<close>: each runs to its end
  inside the call of \<open>stop()\<close>.
\<close>

lemma history_observe: "history (observe orc es) = history orc @ es"
  by (simp add: observe_def)

lemma onDeactivate_body_sync: "list_all is_sync (onDeactivate_body a)"
  by (cases a) simp_all

lemma stop_effect:
  "history (stop orc i a) =
     history orc @ (if active (agents orc i)
                    then [OnDeactivateBegin (agent_name (agents orc i)),
                          OnDeactivateEnd (agent_name (agents orc i))]
                    else [])"
  "activeAgents (stop orc i a) = activeAgents orc"
  "getSetting (stop orc i a) = getSetting orc"
  "created (stop orc i a) = created orc"
  by (simp_all add: stop_def run_onDeactivate_def onDeactivate_body_sync)

lemma deactivate_previous_effect:
  "history (deactivate_previous orc from) = history orc @ deactivation orc from"
  "activeAgents (deactivate_previous orc from) = activeAgents orc"
  "getSetting (deactivate_previous orc from) = getSetting orc"
  by (simp_all add: deactivate_previous_def deactivateAgent_def deactivation_def stop_effect
      split: option.splits)

lemma start_fresh:
  assumes "\<not> active (agents orc i)"
  shows "\<exists>es. history (start orc i a) = history orc @ OnActivateBegin (agent_name (agents orc i)) # es
           \<and> filter is_onDeactivate es = [] \<and> filter is_OnActivateBegin es = []"
  using assms by (simp add: start_def run_onActivate_def)

lemma activateAgent_effect:
  "\<exists>es. history (activateAgent orc a) = history orc @ es
         \<and> filter is_onDeactivate es = []
         \<and> (filter is_OnActivateBegin es = [] \<or> filter is_OnActivateBegin es = [OnActivateBegin a])
         \<and> (activeAgents orc a = None \<and> getSetting orc a \<noteq> Some ''false''
              \<longrightarrow> filter is_OnActivateBegin es = [OnActivateBegin a])"
proof (cases "activeAgents orc a \<noteq> None \<or> getSetting orc a = Some ''false''")
  case True
  then have "history (activateAgent orc a) = history orc @ []"
    by (auto simp: activateAgent_def)
  then show ?thesis using True by (intro exI [of _ "[]"]) auto
next
  case False
  let ?r = "register orc a \<lparr>agent_name = a, active = False\<rparr>"
  have a: "activateAgent orc a = start ?r (created orc) a"
    using False by (simp add: activateAgent_def createAgent_def)
  have r: "\<not> active (agents ?r (created orc))" "agent_name (agents ?r (created orc)) = a"
    "history ?r = history orc @ [Published ''agent:activated'' a]"
    by (simp_all add: register_def)
  obtain es where es: "history (start ?r (created orc) a) = history ?r @ OnActivateBegin a # es"
    "filter is_onDeactivate es = []" "filter is_OnActivateBegin es = []"
    using start_fresh [OF r(1), of a] r(2) by auto
  have "history (activateAgent orc a)
        = history orc @ (Published ''agent:activated'' a # OnActivateBegin a # es)"
    using a es(1) r(3) by simp
  then show ?thesis using es(2,3)
    by (intro exI [of _ "Published ''agent:activated'' a # OnActivateBegin a # es"]) simp
qed

text \<open>
  Claim C3. \<open>#onPhaseTransition\<close> runs without interruption; what it adds to the
  history splits into a part \<open>ds\<close> followed by a part \<open>as\<close>. No \<open>onActivate\<close>
  begins in \<open>ds\<close> and \<open>as\<close> holds no event of an \<open>onDeactivate\<close>. The part
  \<open>ds\<close> holds either no call of \<open>onDeactivate\<close> or exactly the begin and the end
  of the \<open>onDeactivate\<close> of the object registered for the agent of the previous
  phase, and it holds them whenever that object is registered and active. The part
  \<open>as\<close> holds at most one begin of an \<open>onActivate\<close>, that of the agent of the new
  phase, and it holds it whenever this agent is not registered and not disabled in the
  settings. So at most one agent is started, and the \<open>onDeactivate\<close> of the outgoing
  agent has completed when the \<open>onActivate\<close> of the incoming one begins.
\<close>

theorem C3_handover_order:
  "\<exists>ds as.
      history (onPhaseTransition orc from to) = history orc @ ds @ as
    \<and> filter is_OnActivateBegin ds = []
    \<and> filter is_onDeactivate as = []
    \<and> (filter is_onDeactivate ds = []
        \<or> (\<exists>p i. phase_agent from = Some p \<and> activeAgents orc p = Some i
               \<and> filter is_onDeactivate ds
                   = [OnDeactivateBegin (agent_name (agents orc i)),
                      OnDeactivateEnd (agent_name (agents orc i))]))
    \<and> (filter is_OnActivateBegin as = []
        \<or> (\<exists>n. phase_agent to = Some n \<and> filter is_OnActivateBegin as = [OnActivateBegin n]))
    \<and> (\<forall>p i. phase_agent from = Some p \<and> activeAgents orc p = Some i \<and> active (agents orc i)
          \<longrightarrow> filter is_onDeactivate ds
                = [OnDeactivateBegin (agent_name (agents orc i)),
                   OnDeactivateEnd (agent_name (agents orc i))])
    \<and> (\<forall>n. phase_agent to = Some n \<and> activeAgents orc n = None
              \<and> getSetting orc n \<noteq> Some ''false''
          \<longrightarrow> filter is_OnActivateBegin as = [OnActivateBegin n])"
proof -
  let ?o1 = "deactivate_previous orc from"
  let ?o2 = "observe ?o1 (map OverlayHide (phase_overlays from))"
  let ?ds = "deactivation orc from @ map OverlayHide (phase_overlays from)"
  have h2: "history ?o2 = history orc @ ?ds" "activeAgents ?o2 = activeAgents orc"
    "getSetting ?o2 = getSetting orc"
    by (simp_all add: observe_def deactivate_previous_effect)
  have hide: "filter is_onDeactivate (map OverlayHide xs) = []"
    "filter is_OnActivateBegin (map OverlayHide xs) = []" for xs
    by (induction xs) simp_all
  have shw: "filter is_onDeactivate (map OverlayShow xs) = []"
    "filter is_OnActivateBegin (map OverlayShow xs) = []" for xs
    by (induction xs) simp_all
  have d1: "filter is_OnActivateBegin ?ds = []"
    by (simp add: hide deactivation_def split: option.splits)
  have d2: "filter is_onDeactivate ?ds = deactivation orc from"
    by (simp add: hide deactivation_def split: option.splits)
  have d3: "deactivation orc from = []
        \<or> (\<exists>p i. phase_agent from = Some p \<and> activeAgents orc p = Some i
               \<and> deactivation orc from
                   = [OnDeactivateBegin (agent_name (agents orc i)),
                      OnDeactivateEnd (agent_name (agents orc i))])"
    by (simp add: deactivation_def split: option.splits)
  have d4: "\<forall>p i. phase_agent from = Some p \<and> activeAgents orc p = Some i \<and> active (agents orc i)
          \<longrightarrow> deactivation orc from
                = [OnDeactivateBegin (agent_name (agents orc i)),
                   OnDeactivateEnd (agent_name (agents orc i))]"
    by (simp add: deactivation_def)
  have "\<exists>es. history (activate_new ?o2 to) = history ?o2 @ es
         \<and> filter is_onDeactivate es = []
         \<and> (filter is_OnActivateBegin es = []
            \<or> (\<exists>n. phase_agent to = Some n \<and> filter is_OnActivateBegin es = [OnActivateBegin n]))
         \<and> (\<forall>n. phase_agent to = Some n \<and> activeAgents orc n = None
                  \<and> getSetting orc n \<noteq> Some ''false''
              \<longrightarrow> filter is_OnActivateBegin es = [OnActivateBegin n])"
  proof (cases "phase_agent to")
    case None
    then have "history (activate_new ?o2 to) = history ?o2 @ []"
      by (simp add: activate_new_def)
    then show ?thesis using None by (intro exI [of _ "[]"]) simp
  next
    case (Some n)
    obtain es where es: "history (activateAgent ?o2 n) = history ?o2 @ es"
      "filter is_onDeactivate es = []"
      "filter is_OnActivateBegin es = [] \<or> filter is_OnActivateBegin es = [OnActivateBegin n]"
      "activeAgents ?o2 n = None \<and> getSetting ?o2 n \<noteq> Some ''false''
              \<longrightarrow> filter is_OnActivateBegin es = [OnActivateBegin n]"
      using activateAgent_effect [of ?o2 n] by blast
    have "history (activate_new ?o2 to) = history ?o2 @ es"
      using Some es(1) by (simp add: activate_new_def)
    then show ?thesis using es(2,3,4) Some h2(2,3) by (intro exI [of _ es]) simp
  qed
  then obtain es where es: "history (activate_new ?o2 to) = history ?o2 @ es"
      "filter is_onDeactivate es = []"
      "filter is_OnActivateBegin es = []
            \<or> (\<exists>n. phase_agent to = Some n \<and> filter is_OnActivateBegin es = [OnActivateBegin n])"
      "\<forall>n. phase_agent to = Some n \<and> activeAgents orc n = None
                  \<and> getSetting orc n \<noteq> Some ''false''
              \<longrightarrow> filter is_OnActivateBegin es = [OnActivateBegin n]"
    by blast
  let ?as = "es @ map OverlayShow (phase_overlays to)
                @ [BroadcastPhaseChange to, PublishedPhaseChanged from to]"
  have t: "history (onPhaseTransition orc from to) = history orc @ ?ds @ ?as"
    by (simp only: onPhaseTransition_def history_observe es(1) deactivate_previous_effect(1)
        append_assoc)
  have a1: "filter is_onDeactivate ?as = []" using es(2) by (simp add: shw)
  have a2: "filter is_OnActivateBegin ?as = filter is_OnActivateBegin es" by (simp add: shw)
  show ?thesis
    apply (rule exI [of _ ?ds], rule exI [of _ ?as])
    unfolding d2 a2
    using t d1 a1 d3 d4 es(3,4) by blast
qed


text \<open>
  The theorem at the transition from the game to the post-game phase: the strategist is
  deactivated, then the tilt guard is started.
\<close>

theorem C3_handover_order_witness:
  "phase_agent (Phase IN_GAME) = Some macro_strategist
   \<and> activeAgents in_game macro_strategist = Some 0
   \<and> active (agents in_game 0)
   \<and> phase_agent (Phase POST_GAME) = Some tilt_guard
   \<and> activeAgents in_game tilt_guard = None
   \<and> getSetting in_game tilt_guard \<noteq> Some ''false''
   \<and> filter is_onDeactivate (drop (length (history in_game))
         (history (onPhaseTransition in_game (Phase IN_GAME) (Phase POST_GAME))))
       = [OnDeactivateBegin macro_strategist, OnDeactivateEnd macro_strategist]
   \<and> filter is_OnActivateBegin (drop (length (history in_game))
         (history (onPhaseTransition in_game (Phase IN_GAME) (Phase POST_GAME))))
       = [OnActivateBegin tilt_guard]"
proof -
  have h: "phase_agent (Phase IN_GAME) = Some macro_strategist"
    "activeAgents in_game macro_strategist = Some 0"
    "active (agents in_game 0)"
    "phase_agent (Phase POST_GAME) = Some tilt_guard"
    "activeAgents in_game tilt_guard = None"
    "getSetting in_game tilt_guard \<noteq> Some ''false''"
    "agent_name (agents in_game 0) = macro_strategist"
    by code_simp+
  obtain ds as where t:
    "history (onPhaseTransition in_game (Phase IN_GAME) (Phase POST_GAME))
       = history in_game @ ds @ as"
    "filter is_OnActivateBegin ds = []" "filter is_onDeactivate as = []"
    "\<forall>p i. phase_agent (Phase IN_GAME) = Some p \<and> activeAgents in_game p = Some i
            \<and> active (agents in_game i)
          \<longrightarrow> filter is_onDeactivate ds
                = [OnDeactivateBegin (agent_name (agents in_game i)),
                   OnDeactivateEnd (agent_name (agents in_game i))]"
    "\<forall>n. phase_agent (Phase POST_GAME) = Some n \<and> activeAgents in_game n = None
              \<and> getSetting in_game n \<noteq> Some ''false''
          \<longrightarrow> filter is_OnActivateBegin as = [OnActivateBegin n]"
    using C3_handover_order [of in_game "Phase IN_GAME" "Phase POST_GAME"] by blast
  have d: "filter is_onDeactivate ds
        = [OnDeactivateBegin macro_strategist, OnDeactivateEnd macro_strategist]"
    using t(4) h(1,2,3,7) by metis
  have a: "filter is_OnActivateBegin as = [OnActivateBegin tilt_guard]"
    using t(5) h(4,5,6) by metis
  have s: "drop (length (history in_game))
         (history (onPhaseTransition in_game (Phase IN_GAME) (Phase POST_GAME))) = ds @ as"
    unfolding t(1) by simp
  show ?thesis unfolding s using h(1-6) d a t(2,3) by simp
qed

text \<open>
  The continuations left behind begin no \<open>onActivate\<close> and no \<open>onDeactivate\<close>,
  and the handler of the \<open>phase-changed\<close> event either does nothing or is one call
  of \<open>#onPhaseTransition\<close>.
\<close>

lemma run_bodies_begin_nothing:
  "\<exists>es. history (run_onDeactivate orc i a body) = history orc @ es \<and> filter is_begin es = []"
  "\<exists>es. history (run_onActivate orc i a body) = history orc @ es \<and> filter is_begin es = []"
  by (simp_all add: run_onDeactivate_def run_onActivate_def)

lemma continue_begins_nothing:
  "\<exists>es. history (continue orc c threw) = history orc @ es \<and> filter is_begin es = []"
  by (cases c) (simp_all add: run_bodies_begin_nothing)

lemma resume_begins_nothing:
  "\<exists>es. history (resume_pending orc k threw) = history orc @ es \<and> filter is_begin es = []"
proof (cases "k < length (pending orc)")
  case True
  let ?o = "orc\<lparr>pending := take k (pending orc) @ drop (Suc k) (pending orc)\<rparr>"
  have "resume_pending orc k threw = continue ?o (pending orc ! k) threw"
    using True by (simp add: resume_pending_def)
  then show ?thesis using continue_begins_nothing [of ?o "pending orc ! k" threw] by simp
next
  case False
  then show ?thesis by (simp add: resume_pending_def)
qed

lemma phase_changed_calls_back:
  "phase_changed orc lcuPhase = orc
   \<or> (\<exists>sm. phase_changed orc lcuPhase
            = onPhaseTransition (orc\<lparr>stateMachine := sm\<rparr>)
                (currentPhase (stateMachine orc)) (currentPhase sm))"
  by (auto simp: phase_changed_def split: sum.splits)


end
